theory Spec2Isabelle
  imports Main "HOL-Library.Monad_Syntax"
begin

section \<open>The tokenizer of package sqlparser (lex.go)\<close>

text \<open>
  A shallow embedding of \<^verbatim>\<open>sqlparser/lex.go\<close>. Bytes are \<^typ>\<open>char\<close> (eight bits),
  a Go \<^verbatim>\<open>string\<close> or \<^verbatim>\<open>[]byte\<close> is a \<^typ>\<open>string\<close>, and a \<^verbatim>\<open>[]byte\<close> that may be
  \<^verbatim>\<open>nil\<close> is a \<^typ>\<open>string option\<close>. The lookahead \<^verbatim>\<open>lastChar\<close> is a \<^verbatim>\<open>uint16\<close>; the code
  only assigns it a byte value or \<^verbatim>\<open>EOFCHAR\<close> and compares it, so it is a \<^typ>\<open>nat\<close>
  (no arithmetic can wrap). \<^verbatim>\<open>Position\<close> and \<^verbatim>\<open>posVarIndex\<close> are Go \<^verbatim>\<open>int\<close>s that start at
  zero and grow by one per call; they are unbounded integers here.
  The one \<^verbatim>\<open>panic\<close> of the file is the value \<open>None\<close> of an option result.
\<close>

subsection \<open>Bytes and the lookahead character\<close>

definition uint16 :: "char \<Rightarrow> nat" where
  "uint16 c = of_char c"

definition byte :: "nat \<Rightarrow> char" where
  "byte w = char_of w"

definition EOFCHAR :: nat where
  "EOFCHAR = 0x100"

subsection \<open>Token kinds\<close>

text \<open>
  \<^verbatim>\<open>Scan\<close> returns an \<^verbatim>\<open>int\<close>: \<^verbatim>\<open>0\<close> at the end of input, \<^verbatim>\<open>int(ch)\<close> for a
  one-character operator, or one of the token constants that the generated parser
  declares (\<^verbatim>\<open>LEX_ERROR\<close>, \<^verbatim>\<open>ID\<close>, \<^verbatim>\<open>SELECT\<close>, ...). That declaration is not among the
  sources; yacc numbers its tokens apart from each other and above the byte range, so
  they are constructors here: \<open>Code n\<close> is the plain integer \<open>n\<close>, and \<open>KW name\<close> is the
  keyword constant called \<open>name\<close> in the keyword table.
\<close>

datatype token_kind =
    Code int
  | LEX_ERROR | ID | STRING | NUMBER | VALUE_ARG | COMMENT
  | NE | LE | GE | NULL_SAFE_EQUAL
  | KW string

type_synonym token = "token_kind \<times> string option"

subsection \<open>The tokenizer state\<close>

text \<open>
  \<^verbatim>\<open>InStream\<close> is the unread rest of the \<^verbatim>\<open>strings.Reader\<close>. The field \<^verbatim>\<open>ParseTree\<close> belongs
  to the parser and is never touched by the tokenizer; it is left out.
\<close>

record Tokenizer =
  InStream :: string
  AllowComments :: bool
  ForceEOF :: bool
  lastChar :: nat
  Position :: int
  errorToken :: "string option"
  LastError :: string
  posVarIndex :: int

definition NewStringTokenizer :: "string \<Rightarrow> Tokenizer" where
  "NewStringTokenizer sql =
     \<lparr>InStream = sql, AllowComments = False, ForceEOF = False, lastChar = 0, Position = 0,
      errorToken = None, LastError = [], posVarIndex = 0\<rparr>"

text \<open>
  The escape table \<^verbatim>\<open>sqltypes.SQLDecodeMap\<close> (a \<^verbatim>\<open>[256]byte\<close>) and the constant
  \<^verbatim>\<open>sqltypes.DONTESCAPE\<close> live in a package that is not among the sources. They are
  parameters of the string scanner.
\<close>

record sqltypes =
  SQLDecodeMap :: "char \<Rightarrow> char"
  DONTESCAPE :: char

subsection \<open>Character classes\<close>

definition isLetter :: "nat \<Rightarrow> bool" where
  "isLetter ch \<longleftrightarrow>
     uint16 CHR ''a'' \<le> ch \<and> ch \<le> uint16 CHR ''z'' \<or>
     uint16 CHR ''A'' \<le> ch \<and> ch \<le> uint16 CHR ''Z'' \<or>
     ch = uint16 CHR ''_'' \<or> ch = uint16 CHR ''@''"

definition digitVal :: "nat \<Rightarrow> int" where
  "digitVal ch =
     (if uint16 CHR ''0'' \<le> ch \<and> ch \<le> uint16 CHR ''9'' then int ch - int (uint16 CHR ''0'')
      else if uint16 CHR ''a'' \<le> ch \<and> ch \<le> uint16 CHR ''f''
        then int ch - int (uint16 CHR ''a'') + 10
      else if uint16 CHR ''A'' \<le> ch \<and> ch \<le> uint16 CHR ''F''
        then int ch - int (uint16 CHR ''A'') + 10
      else 16)"

definition isDigit :: "nat \<Rightarrow> bool" where
  "isDigit ch \<longleftrightarrow> uint16 CHR ''0'' \<le> ch \<and> ch \<le> uint16 CHR ''9''"

subsection \<open>Advancing\<close>

text \<open>\<^verbatim>\<open>next\<close>: read one byte into the lookahead, or \<^verbatim>\<open>EOFCHAR\<close> when the reader is empty.\<close>

definition next' :: "Tokenizer \<Rightarrow> Tokenizer" where
  "next' tkn =
     (case InStream tkn of
        [] \<Rightarrow> tkn\<lparr>lastChar := EOFCHAR, Position := Position tkn + 1\<rparr>
      | ch # rest \<Rightarrow>
          tkn\<lparr>InStream := rest, lastChar := uint16 ch, Position := Position tkn + 1\<rparr>)"

text \<open>\<^verbatim>\<open>Next\<close>: append the lookahead to the buffer and advance; it panics at end of input.\<close>

definition Next :: "string \<Rightarrow> Tokenizer \<Rightarrow> (string \<times> Tokenizer) option" where
  "Next buffer tkn =
     (if lastChar tkn = EOFCHAR then None
      else Some (buffer @ [byte (lastChar tkn)], next' tkn))"

text \<open>
  What is still ahead of the scanner: the unread bytes, and the lookahead unless it is
  the end-of-input sentinel. Every loop of the file advances while the lookahead is not
  the sentinel, so this number is the termination measure of all of them.
\<close>

definition pending :: "Tokenizer \<Rightarrow> nat" where
  "pending tkn = length (InStream tkn) + (if lastChar tkn = EOFCHAR then 0 else 1)"

lemma pending_next_le: "pending (next' tkn) \<le> pending tkn"
  by (simp add: pending_def next'_def split: list.split)

lemma pending_next_less: "lastChar tkn \<noteq> EOFCHAR \<Longrightarrow> pending (next' tkn) < pending tkn"
  by (simp add: pending_def next'_def split: list.split)

lemma Next_Some: "Next buffer tkn = Some (b, t) \<Longrightarrow> lastChar tkn \<noteq> EOFCHAR \<and> t = next' tkn"
  by (simp add: Next_def split: if_splits)

lemma uint16_less: "uint16 c < 256"
proof -
  have "uint16 c = uint16 c mod 256" by (simp add: uint16_def)
  also have "\<dots> < 256" by (rule mod_less_divisor) simp
  finally show ?thesis .
qed

lemma uint16_neq_EOFCHAR: "uint16 c \<noteq> EOFCHAR"
  using uint16_less [of c] by (simp add: EOFCHAR_def)

lemma byte_uint16: "byte (uint16 c) = c"
  by (simp add: uint16_def byte_def)

lemma uint16_inject: "uint16 c = uint16 d \<longleftrightarrow> c = d"
  by (simp add: uint16_def)

function skipBlank :: "Tokenizer \<Rightarrow> Tokenizer" where
  "skipBlank tkn =
     (let ch = lastChar tkn in
      if ch = uint16 CHR '' '' \<or> ch = uint16 CHR 0x0A \<or> ch = uint16 CHR 0x0D \<or>
         ch = uint16 CHR 0x09
      then skipBlank (next' tkn) else tkn)"
  by pat_completeness auto
termination
  by (relation "measure pending") (auto intro!: pending_next_less simp: uint16_neq_EOFCHAR)

declare skipBlank.simps [simp del]


lemma isLetter_neq_EOFCHAR: "isLetter ch \<Longrightarrow> ch \<noteq> EOFCHAR"
  by (auto simp: isLetter_def EOFCHAR_def uint16_def)

lemma isDigit_neq_EOFCHAR: "isDigit ch \<Longrightarrow> ch \<noteq> EOFCHAR"
  by (auto simp: isDigit_def EOFCHAR_def uint16_def)

subsection \<open>The keyword table\<close>

definition keywords' :: "string \<rightharpoonup> token_kind" where
  "keywords' = map_of [
    (''select'', KW ''SELECT''), (''insert'', KW ''INSERT''), (''update'', KW ''UPDATE''),
    (''delete'', KW ''DELETE''), (''from'', KW ''FROM''), (''where'', KW ''WHERE''),
    (''group'', KW ''GROUP''), (''having'', KW ''HAVING''), (''order'', KW ''ORDER''),
    (''by'', KW ''BY''), (''limit'', KW ''LIMIT''), (''for'', KW ''FOR''),
    (''union'', KW ''UNION''), (''all'', KW ''ALL''), (''minus'', KW ''MINUS''),
    (''except'', KW ''EXCEPT''), (''intersect'', KW ''INTERSECT''), (''join'', KW ''JOIN''),
    (''full'', KW ''FULL''), (''straight_join'', KW ''STRAIGHT_JOIN''), (''left'', KW ''LEFT''),
    (''right'', KW ''RIGHT''), (''inner'', KW ''INNER''), (''outer'', KW ''OUTER''),
    (''cross'', KW ''CROSS''), (''natural'', KW ''NATURAL''), (''use'', KW ''USE''),
    (''force'', KW ''FORCE''), (''on'', KW ''ON''), (''into'', KW ''INTO''),
    (''distinct'', KW ''DISTINCT''), (''case'', KW ''CASE''), (''when'', KW ''WHEN''),
    (''then'', KW ''THEN''), (''else'', KW ''ELSE''), (''end'', KW ''END''),
    (''as'', KW ''AS''), (''and'', KW ''AND''), (''or'', KW ''OR''), (''not'', KW ''NOT''),
    (''exists'', KW ''EXISTS''), (''in'', KW ''IN''), (''is'', KW ''IS''),
    (''like'', KW ''LIKE''), (''between'', KW ''BETWEEN''), (''null'', KW ''NULL''),
    (''asc'', KW ''ASC''), (''desc'', KW ''DESC''), (''values'', KW ''VALUES''),
    (''duplicate'', KW ''DUPLICATE''), (''key'', KW ''KEY''), (''default'', KW ''DEFAULT''),
    (''set'', KW ''SET''), (''lock'', KW ''LOCK''), (''create'', KW ''CREATE''),
    (''alter'', KW ''ALTER''), (''rename'', KW ''RENAME''), (''drop'', KW ''DROP''),
    (''table'', KW ''TABLE''), (''index'', KW ''INDEX''), (''view'', KW ''VIEW''),
    (''to'', KW ''TO''), (''ignore'', KW ''IGNORE''), (''if'', KW ''IF''),
    (''unique'', KW ''UNIQUE''), (''using'', KW ''USING''), (''begin'', KW ''BEGIN''),
    (''rollback'', KW ''ROLLBACK''), (''commit'', KW ''COMMIT''), (''names'', KW ''NAMES''),
    (''replace'', KW ''REPLACE''), (''start'', KW ''START''),
    (''transaction'', KW ''TRANSACTION''), (''isolation'', KW ''ISOLATION''),
    (''level'', KW ''LEVEL''), (''repeatable'', KW ''REPEATABLE''), (''read'', KW ''READ''),
    (''committed'', KW ''COMMITTED''), (''uncommitted'', KW ''UNCOMMITTED''),
    (''serializable'', KW ''SERIALIZABLE''), (''collate'', KW ''COLLATE''),
    (''offset'', KW ''OFFSET''), (''charset'', KW ''CHARSET''),
    (''character'', KW ''CHARACTER''), (''collation'', KW ''COLLATION''),
    (''show'', KW ''SHOW''), (''describe'', KW ''DESCRIBE''), (''explain'', KW ''EXPLAIN''),
    (''variables'', KW ''VARIABLES''), (''status'', KW ''STATUS''),
    (''databases'', KW ''DATABASES''), (''database'', KW ''DATABASE''),
    (''tables'', KW ''TABLES''), (''columns'', KW ''COLUMNS''),
    (''procedure'', KW ''PROCEDURE''), (''function'', KW ''FUNCTION''),
    (''engines'', KW ''ENGINES''), (''storage'', KW ''STORAGE''), (''plugins'', KW ''PLUGINS''),
    (''processlist'', KW ''PROCESSLIST''), (''indexes'', KW ''INDEXES''),
    (''keys'', KW ''KEYS''), (''triggers'', KW ''TRIGGERS''), (''trigger'', KW ''TRIGGER''),
    (''slave'', KW ''SLAVE''), (''session'', KW ''SESSION''), (''global'', KW ''GLOBAL''),
    (''armscii8'', KW ''ARMSCII8''), (''ascii'', KW ''ASCII''), (''big5'', KW ''BIG5''),
    (''binary'', KW ''BINARY''), (''cp1250'', KW ''CP1250''), (''cp1251'', KW ''CP1251''),
    (''cp1256'', KW ''CP1256''), (''cp1257'', KW ''CP1257''), (''cp850'', KW ''CP850''),
    (''cp852'', KW ''CP852''), (''cp866'', KW ''CP866''), (''cp932'', KW ''CP932''),
    (''dec8'', KW ''DEC8''), (''eucjpms'', KW ''EUCJPMS''), (''euckr'', KW ''EUCKR''),
    (''gb2312'', KW ''GB2312''), (''gbk'', KW ''GBK''), (''geostd8'', KW ''GEOSTD8''),
    (''greek'', KW ''GREEK''), (''hebrew'', KW ''HEBREW''), (''hp8'', KW ''HP8''),
    (''keybcs2'', KW ''KEYBCS2''), (''koi8r'', KW ''KOI8R''), (''koi8u'', KW ''KOI8U''),
    (''latin1'', KW ''LATIN1''), (''latin2'', KW ''LATIN2''), (''latin5'', KW ''LATIN5''),
    (''latin7'', KW ''LATIN7''), (''macce'', KW ''MACCE''), (''macroman'', KW ''MACROMAN''),
    (''sjis'', KW ''SJIS''), (''swe7'', KW ''SWE7''), (''tis620'', KW ''TIS620''),
    (''ucs2'', KW ''UCS2''), (''ujis'', KW ''EJIS''), (''utf16'', KW ''UTF16''),
    (''utf16le'', KW ''UTF16LE''), (''utf32'', KW ''UTF32''), (''utf8'', KW ''UTF8''),
    (''utf8mb4'', KW ''UTF8MB4''), (''admin'', KW ''ADMIN''), (''help'', KW ''HELP'')]"

text \<open>
  \<^verbatim>\<open>bytes.ToLower\<close>, on the bytes an identifier can hold (ASCII letters, digits, \<^verbatim>\<open>_\<close> and
  \<^verbatim>\<open>@\<close>): the upper-case letters move to lower case, every other byte stays.
\<close>

definition toLower :: "char \<Rightarrow> char" where
  "toLower c =
     (if uint16 CHR ''A'' \<le> uint16 c \<and> uint16 c \<le> uint16 CHR ''Z''
      then byte (uint16 c + 32) else c)"

definition ToLower :: "string \<Rightarrow> string" where
  "ToLower s = map toLower s"

subsection \<open>Formatting an integer (\<^verbatim>\<open>%d\<close>)\<close>

definition digit_char :: "nat \<Rightarrow> char" where
  "digit_char d = byte (uint16 CHR ''0'' + d)"

fun decimal :: "nat \<Rightarrow> string" where
  "decimal n = (if n < 10 then [digit_char n] else decimal (n div 10) @ [digit_char (n mod 10)])"

declare decimal.simps [simp del]

definition fmt_d :: "int \<Rightarrow> string" where
  "fmt_d i = (if i < 0 then CHR ''-'' # decimal (nat (- i)) else decimal (nat i))"

subsection \<open>Identifiers and bind variables\<close>

function scanIdentifier_loop :: "string \<Rightarrow> Tokenizer \<Rightarrow> string \<times> Tokenizer" where
  "scanIdentifier_loop buffer tkn =
     (if isLetter (lastChar tkn) \<or> isDigit (lastChar tkn)
      then scanIdentifier_loop (buffer @ [byte (lastChar tkn)]) (next' tkn)
      else (buffer, tkn))"
  by pat_completeness auto
termination
  by (relation "measure (\<lambda>(buffer, tkn). pending tkn)")
     (auto intro!: pending_next_less dest: isLetter_neq_EOFCHAR isDigit_neq_EOFCHAR)

declare scanIdentifier_loop.simps [simp del]

definition scanIdentifier :: "Tokenizer \<Rightarrow> token \<times> Tokenizer" where
  "scanIdentifier tkn =
     (let (buffer, tkn) = scanIdentifier_loop [byte (lastChar tkn)] (next' tkn);
          lowered = ToLower buffer
      in case keywords' lowered of
           Some keywordID \<Rightarrow> ((keywordID, Some lowered), tkn)
         | None \<Rightarrow> ((ID, Some buffer), tkn))"

function scanBindVar_loop :: "string \<Rightarrow> Tokenizer \<Rightarrow> string \<times> Tokenizer" where
  "scanBindVar_loop buffer tkn =
     (if isLetter (lastChar tkn) \<or> isDigit (lastChar tkn) \<or> lastChar tkn = uint16 CHR ''.''
      then scanBindVar_loop (buffer @ [byte (lastChar tkn)]) (next' tkn)
      else (buffer, tkn))"
  by pat_completeness auto
termination
  by (relation "measure (\<lambda>(buffer, tkn). pending tkn)")
     (auto intro!: pending_next_less
           dest: isLetter_neq_EOFCHAR isDigit_neq_EOFCHAR simp: uint16_neq_EOFCHAR)

declare scanBindVar_loop.simps [simp del]

definition scanBindVar :: "Tokenizer \<Rightarrow> token \<times> Tokenizer" where
  "scanBindVar tkn =
     (let (buffer, tkn) = scanBindVar_loop [byte (lastChar tkn)] (next' tkn)
      in if length buffer = 1 then ((LEX_ERROR, Some buffer), tkn)
         else ((VALUE_ARG, Some buffer), tkn))"

subsection \<open>Numbers\<close>

function scanMantissa :: "int \<Rightarrow> string \<Rightarrow> Tokenizer \<Rightarrow> (string \<times> Tokenizer) option" where
  "scanMantissa base buffer tkn =
     (if digitVal (lastChar tkn) < base
      then do { (buffer, tkn) \<leftarrow> Next buffer tkn; scanMantissa base buffer tkn }
      else Some (buffer, tkn))"
  by pat_completeness auto
termination
  by (relation "measure (\<lambda>(base, buffer, tkn). pending tkn)")
     (auto dest!: Next_Some intro: pending_next_less)

declare scanMantissa.simps [simp del]

text \<open>The three labels of \<^verbatim>\<open>scanNumber\<close>: \<^verbatim>\<open>exit\<close>, \<^verbatim>\<open>exponent\<close> and \<^verbatim>\<open>fraction\<close>.\<close>

definition scanNumber_exit :: "string \<Rightarrow> Tokenizer \<Rightarrow> (token \<times> Tokenizer) option" where
  "scanNumber_exit buffer tkn = Some ((NUMBER, Some buffer), tkn)"

definition scanNumber_exponent :: "string \<Rightarrow> Tokenizer \<Rightarrow> (token \<times> Tokenizer) option" where
  "scanNumber_exponent buffer tkn =
     (if lastChar tkn = uint16 CHR ''e'' \<or> lastChar tkn = uint16 CHR ''E'' then
        do {
          (buffer, tkn) \<leftarrow> Next buffer tkn;
          (buffer, tkn) \<leftarrow>
            (if lastChar tkn = uint16 CHR ''+'' \<or> lastChar tkn = uint16 CHR ''-''
             then Next buffer tkn else Some (buffer, tkn));
          (buffer, tkn) \<leftarrow> scanMantissa 10 buffer tkn;
          scanNumber_exit buffer tkn
        }
      else scanNumber_exit buffer tkn)"

definition scanNumber_fraction :: "string \<Rightarrow> Tokenizer \<Rightarrow> (token \<times> Tokenizer) option" where
  "scanNumber_fraction buffer tkn =
     do {
       (buffer, tkn) \<leftarrow>
         (if lastChar tkn = uint16 CHR ''.''
          then do { (buffer, tkn) \<leftarrow> Next buffer tkn; scanMantissa 10 buffer tkn }
          else Some (buffer, tkn));
       scanNumber_exponent buffer tkn
     }"

definition scanNumber :: "bool \<Rightarrow> Tokenizer \<Rightarrow> (token \<times> Tokenizer) option" where
  "scanNumber seenDecimalPoint tkn =
     (if seenDecimalPoint then
        do {
          (buffer, tkn) \<leftarrow> scanMantissa 10 [CHR ''.''] tkn;
          scanNumber_exponent buffer tkn
        }
      else if lastChar tkn = uint16 CHR ''0'' then
        do {
          (buffer, tkn) \<leftarrow> Next [] tkn;
          if lastChar tkn = uint16 CHR ''x'' \<or> lastChar tkn = uint16 CHR ''X'' then
            do {
              (buffer, tkn) \<leftarrow> Next buffer tkn;
              (buffer, tkn) \<leftarrow> scanMantissa 16 buffer tkn;
              scanNumber_exit buffer tkn
            }
          else
            do {
              (buffer, tkn) \<leftarrow> scanMantissa 8 buffer tkn;
              let seenDecimalDigit =
                (lastChar tkn = uint16 CHR ''8'' \<or> lastChar tkn = uint16 CHR ''9'');
              (buffer, tkn) \<leftarrow>
                (if seenDecimalDigit then scanMantissa 10 buffer tkn else Some (buffer, tkn));
              if lastChar tkn = uint16 CHR ''.'' \<or> lastChar tkn = uint16 CHR ''e'' \<or>
                 lastChar tkn = uint16 CHR ''E''
              then scanNumber_fraction buffer tkn
              else if seenDecimalDigit then Some ((LEX_ERROR, Some buffer), tkn)
              else scanNumber_exit buffer tkn
            }
        }
      else
        do {
          (buffer, tkn) \<leftarrow> scanMantissa 10 [] tkn;
          scanNumber_fraction buffer tkn
        })"

subsection \<open>Strings and comments\<close>

function scanString_loop ::
  "sqltypes \<Rightarrow> nat \<Rightarrow> token_kind \<Rightarrow> string \<Rightarrow> Tokenizer \<Rightarrow> token \<times> Tokenizer" where
  "scanString_loop sq delim typ buffer tkn0 =
     (let ch = lastChar tkn0; tkn = next' tkn0 in
      if ch = delim then
        (if lastChar tkn = delim then
           (let tkn = next' tkn in
            if ch = EOFCHAR then ((LEX_ERROR, Some buffer), tkn)
            else scanString_loop sq delim typ (buffer @ [byte ch]) tkn)
         else ((typ, Some buffer), tkn))
      else if ch = uint16 CHR 0x5C then
        (if lastChar tkn = EOFCHAR then ((LEX_ERROR, Some buffer), tkn)
         else
           (let decodedChar = SQLDecodeMap sq (byte (lastChar tkn));
                ch = (if decodedChar = DONTESCAPE sq then lastChar tkn else uint16 decodedChar);
                tkn = next' tkn in
            if ch = EOFCHAR then ((LEX_ERROR, Some buffer), tkn)
            else scanString_loop sq delim typ (buffer @ [byte ch]) tkn))
      else if ch = EOFCHAR then ((LEX_ERROR, Some buffer), tkn)
      else scanString_loop sq delim typ (buffer @ [byte ch]) tkn)"
  by pat_completeness auto
termination
proof (relation "measure (\<lambda>(sq, delim, typ, buffer, tkn). pending tkn)", goal_cases)
  case 1
  show ?case by simp
next
  case (2 sq delim ty buffer tkn0 ch tkn tkn')
  then have "pending (next' tkn0) < pending tkn0"
    by (auto intro: pending_next_less)
  with 2 show ?case
    using pending_next_le [of "next' tkn0"] by simp
next
  case (3 sq delim ty buffer tkn0 ch tkn decodedChar ch' tkn')
  then have "pending (next' tkn0) < pending tkn0"
    by (auto intro: pending_next_less simp: uint16_neq_EOFCHAR)
  with 3 show ?case
    using pending_next_le [of "next' tkn0"] by simp
next
  case (4 sq delim ty buffer tkn0 ch tkn)
  then show ?case
    by (auto intro: pending_next_less)
qed

declare scanString_loop.simps [simp del]

definition scanString :: "sqltypes \<Rightarrow> nat \<Rightarrow> token_kind \<Rightarrow> Tokenizer \<Rightarrow> token \<times> Tokenizer" where
  "scanString sq delim typ tkn = scanString_loop sq delim typ [] tkn"

function scanCommentType1_loop :: "string \<Rightarrow> Tokenizer \<Rightarrow> (token \<times> Tokenizer) option" where
  "scanCommentType1_loop buffer tkn =
     (if lastChar tkn \<noteq> EOFCHAR then
        (if lastChar tkn = uint16 CHR 0x0A then
           do { (buffer, tkn) \<leftarrow> Next buffer tkn; Some ((COMMENT, Some buffer), tkn) }
         else
           do { (buffer, tkn) \<leftarrow> Next buffer tkn; scanCommentType1_loop buffer tkn })
      else Some ((COMMENT, Some buffer), tkn))"
  by pat_completeness auto
termination
  by (relation "measure (\<lambda>(buffer, tkn). pending tkn)")
     (auto dest!: Next_Some intro: pending_next_less)

declare scanCommentType1_loop.simps [simp del]

definition scanCommentType1 :: "string \<Rightarrow> Tokenizer \<Rightarrow> (token \<times> Tokenizer) option" where
  "scanCommentType1 prefix tkn = scanCommentType1_loop prefix tkn"

function scanCommentType2_loop :: "string \<Rightarrow> Tokenizer \<Rightarrow> (token \<times> Tokenizer) option" where
  "scanCommentType2_loop buffer tkn =
     (if lastChar tkn = uint16 CHR ''*'' then
        do {
          (buffer, tkn) \<leftarrow> Next buffer tkn;
          if lastChar tkn = uint16 CHR ''/''
          then do { (buffer, tkn) \<leftarrow> Next buffer tkn; Some ((COMMENT, Some buffer), tkn) }
          else scanCommentType2_loop buffer tkn
        }
      else if lastChar tkn = EOFCHAR then Some ((LEX_ERROR, Some buffer), tkn)
      else do { (buffer, tkn) \<leftarrow> Next buffer tkn; scanCommentType2_loop buffer tkn })"
  by pat_completeness auto
termination
  by (relation "measure (\<lambda>(buffer, tkn). pending tkn)")
     (auto dest!: Next_Some intro: pending_next_less)

declare scanCommentType2_loop.simps [simp del]

definition scanCommentType2 :: "Tokenizer \<Rightarrow> (token \<times> Tokenizer) option" where
  "scanCommentType2 tkn = scanCommentType2_loop ''/*'' tkn"

subsection \<open>Scan\<close>

text \<open>
  The \<^verbatim>\<open>default\<close> branch of the outer switch of \<^verbatim>\<open>Scan\<close>: \<open>ch\<close> is the character the
  switch looked at, and \<open>tkn\<close> the tokenizer after the \<^verbatim>\<open>tkn.next()\<close> that opens the branch.
\<close>

definition Scan_default :: "sqltypes \<Rightarrow> nat \<Rightarrow> Tokenizer \<Rightarrow> (token \<times> Tokenizer) option" where
  "Scan_default sq ch tkn =
     (if ch = EOFCHAR then Some ((Code 0, None), tkn)
      else if ch \<in> set (map uint16 ''=,;()+*%&|^~'') then Some ((Code (int ch), None), tkn)
      else if ch = uint16 CHR ''?'' then
        (let tkn = tkn\<lparr>posVarIndex := posVarIndex tkn + 1\<rparr>
         in Some ((VALUE_ARG, Some ('':v'' @ fmt_d (posVarIndex tkn))), tkn))
      else if ch = uint16 CHR ''.'' then
        (if isDigit (lastChar tkn) then scanNumber True tkn
         else Some ((Code (int ch), None), tkn))
      else if ch = uint16 CHR ''/'' then
        (if lastChar tkn = uint16 CHR ''/'' then scanCommentType1 ''//'' (next' tkn)
         else if lastChar tkn = uint16 CHR ''*'' then scanCommentType2 (next' tkn)
         else Some ((Code (int ch), None), tkn))
      else if ch = uint16 CHR ''-'' then
        (if lastChar tkn = uint16 CHR ''-'' then scanCommentType1 ''--'' (next' tkn)
         else Some ((Code (int ch), None), tkn))
      else if ch = uint16 CHR ''<'' then
        (if lastChar tkn = uint16 CHR ''>'' then Some ((NE, None), next' tkn)
         else if lastChar tkn = uint16 CHR ''='' then
           (let tkn = next' tkn in
            if lastChar tkn = uint16 CHR ''>'' then Some ((NULL_SAFE_EQUAL, None), next' tkn)
            else Some ((LE, None), tkn))
         else Some ((Code (int ch), None), tkn))
      else if ch = uint16 CHR ''>'' then
        (if lastChar tkn = uint16 CHR ''='' then Some ((GE, None), next' tkn)
         else Some ((Code (int ch), None), tkn))
      else if ch = uint16 CHR ''!'' then
        (if lastChar tkn = uint16 CHR ''='' then Some ((NE, None), next' tkn)
         else Some ((LEX_ERROR, Some ''!''), tkn))
      else if ch = uint16 CHR 0x27 \<or> ch = uint16 CHR 0x22 then
        Some (scanString sq ch STRING tkn)
      else if ch = uint16 CHR 0x60 then Some (scanString sq ch ID tkn)
      else Some ((LEX_ERROR, Some [byte ch]), tkn))"

definition Scan :: "sqltypes \<Rightarrow> Tokenizer \<Rightarrow> (token \<times> Tokenizer) option" where
  "Scan sq tkn =
     (if ForceEOF tkn then Some ((Code 0, None), tkn)
      else
        (let tkn = (if lastChar tkn = 0 then next' tkn else tkn);
             tkn = skipBlank tkn;
             ch = lastChar tkn
         in if isLetter ch then Some (scanIdentifier tkn)
            else if isDigit ch then scanNumber False tkn
            else if ch = uint16 CHR '':'' then Some (scanBindVar tkn)
            else Scan_default sq ch (next' tkn)))"

section \<open>Advancing through the input\<close>

text \<open>
  \<open>advance n\<close> is \<open>n\<close> calls of \<^verbatim>\<open>next\<close>. Every scanner leaves the tokenizer it was given
  advanced by some number of calls; \<^verbatim>\<open>Scan\<close> may also have counted a placeholder.
\<close>

primrec advance :: "nat \<Rightarrow> Tokenizer \<Rightarrow> Tokenizer" where
  "advance 0 tkn = tkn"
| "advance (Suc n) tkn = advance n (next' tkn)"

definition advanced :: "Tokenizer \<Rightarrow> Tokenizer \<Rightarrow> bool" where
  "advanced tkn tkn' \<longleftrightarrow> (\<exists>n k. tkn' = (advance n tkn)\<lparr>posVarIndex := k\<rparr>)"

lemma next_advance: "next' tkn = advance (Suc 0) tkn"
  by simp

lemma advance_add: "advance m (advance n tkn) = advance (n + m) tkn"
  by (induction n arbitrary: tkn) simp_all

lemma next_posVarIndex_update:
  "next' (tkn\<lparr>posVarIndex := k\<rparr>) = (next' tkn)\<lparr>posVarIndex := k\<rparr>"
  by (simp add: next'_def split: list.split)

lemma advance_posVarIndex_update:
  "advance n (tkn\<lparr>posVarIndex := k\<rparr>) = (advance n tkn)\<lparr>posVarIndex := k\<rparr>"
  by (induction n arbitrary: tkn) (simp_all add: next_posVarIndex_update)

lemma advanced_refl: "advanced tkn tkn"
proof -
  have "tkn = (advance 0 tkn)\<lparr>posVarIndex := posVarIndex tkn\<rparr>" by simp
  then show ?thesis unfolding advanced_def by blast
qed

lemma advanced_trans:
  assumes "advanced a b" and "advanced b c"
  shows "advanced a c"
proof -
  from assms obtain n k m l where b: "b = (advance n a)\<lparr>posVarIndex := k\<rparr>"
    and c: "c = (advance m b)\<lparr>posVarIndex := l\<rparr>"
    unfolding advanced_def by blast
  have "c = (advance (n + m) a)\<lparr>posVarIndex := l\<rparr>"
    by (simp add: b c advance_posVarIndex_update advance_add)
  then show ?thesis unfolding advanced_def by blast
qed

lemma advanced_update: "advanced tkn tkn' \<Longrightarrow> advanced tkn (tkn'\<lparr>posVarIndex := k\<rparr>)"
proof -
  assume "advanced tkn tkn'"
  then obtain n l where "tkn' = (advance n tkn)\<lparr>posVarIndex := l\<rparr>"
    unfolding advanced_def by blast
  then have "tkn'\<lparr>posVarIndex := k\<rparr> = (advance n tkn)\<lparr>posVarIndex := k\<rparr>" by simp
  then show ?thesis unfolding advanced_def by blast
qed

lemma advanced_advance: "advanced tkn (advance n tkn)"
proof -
  have "advance n tkn = (advance n tkn)\<lparr>posVarIndex := posVarIndex (advance n tkn)\<rparr>" by simp
  then show ?thesis unfolding advanced_def by blast
qed

lemma advanced_update_iff: "advanced tkn (tkn'\<lparr>posVarIndex := k\<rparr>) \<longleftrightarrow> advanced tkn tkn'"
proof
  assume "advanced tkn (tkn'\<lparr>posVarIndex := k\<rparr>)"
  then have "advanced tkn (tkn'\<lparr>posVarIndex := k\<rparr>\<lparr>posVarIndex := posVarIndex tkn'\<rparr>)"
    by (rule advanced_update)
  then show "advanced tkn tkn'" by simp
qed (rule advanced_update)



lemma pending_advance: "pending (advance n tkn) \<le> pending tkn"
proof (induction n arbitrary: tkn)
  case 0
  show ?case by simp
next
  case (Suc n)
  have "pending (advance n (next' tkn)) \<le> pending (next' tkn)" by (rule Suc.IH)
  also have "\<dots> \<le> pending tkn" by (rule pending_next_le)
  finally show ?case by simp
qed

lemma flags_advance:
  "AllowComments (advance n tkn) = AllowComments tkn \<and> ForceEOF (advance n tkn) = ForceEOF tkn"
  by (induction n arbitrary: tkn) (simp_all add: next'_def split: list.split)

lemma pending_posVarIndex_update: "pending (tkn\<lparr>posVarIndex := k\<rparr>) = pending tkn"
  by (simp add: pending_def)

lemma advanced_pending: "advanced tkn tkn' \<Longrightarrow> pending tkn' \<le> pending tkn"
  unfolding advanced_def using pending_advance by (auto simp: pending_posVarIndex_update)

lemma advanced_flags:
  "advanced tkn tkn' \<Longrightarrow> AllowComments tkn' = AllowComments tkn \<and> ForceEOF tkn' = ForceEOF tkn"
  unfolding advanced_def using flags_advance by auto



declare advance.simps [simp del]

lemma ex_advance_self: "\<exists>n. tkn = advance n tkn"
  by (rule exI [of _ 0]) (simp add: advance.simps)

lemma ex_advance: "\<exists>n. advance m tkn = advance n tkn"
  by (rule exI) (rule refl)

lemma ex_advance_Suc: "\<exists>n. advance (Suc m) tkn = advance (Suc n) tkn"
  by (rule exI) (rule refl)

lemmas adv_simps = next_advance advance_add ex_advance_self ex_advance ex_advance_Suc

lemma skipBlank_advance: "\<exists>n. skipBlank tkn = advance n tkn"
proof (induction tkn rule: skipBlank.induct)
  case (1 tkn)
  show ?case
  proof (cases "lastChar tkn = uint16 CHR '' '' \<or> lastChar tkn = uint16 CHR 0x0A \<or>
      lastChar tkn = uint16 CHR 0x0D \<or> lastChar tkn = uint16 CHR 0x09")
    case True
    from 1 [OF refl True] obtain n where "skipBlank (next' tkn) = advance n (next' tkn)" ..
    with True have "skipBlank tkn = advance (Suc 0 + n) tkn"
      by (subst skipBlank.simps) (simp add: adv_simps)
    then show ?thesis ..
  next
    case False
    then have "skipBlank tkn = advance 0 tkn"
      by (subst skipBlank.simps) (simp add: advance.simps)
    then show ?thesis ..
  qed
qed

lemma scanIdentifier_loop_advance:
  "scanIdentifier_loop buffer tkn = (b, tkn') \<Longrightarrow> \<exists>n. tkn' = advance n tkn"
proof (induction buffer tkn rule: scanIdentifier_loop.induct)
  case (1 buffer tkn)
  show ?case
  proof (cases "isLetter (lastChar tkn) \<or> isDigit (lastChar tkn)")
    case True
    with "1.prems" have "scanIdentifier_loop (buffer @ [byte (lastChar tkn)]) (next' tkn) = (b, tkn')"
      by (subst (asm) scanIdentifier_loop.simps) simp
    from "1.IH" [OF True this] obtain n where "tkn' = advance n (next' tkn)" ..
    then have "tkn' = advance (Suc 0 + n) tkn" by (simp add: adv_simps)
    then show ?thesis ..
  next
    case False
    with "1.prems" have "tkn' = advance 0 tkn"
      by (subst (asm) scanIdentifier_loop.simps) (simp add: advance.simps)
    then show ?thesis ..
  qed
qed

lemma scanIdentifier_advance:
  "scanIdentifier tkn = (r, tkn') \<Longrightarrow> \<exists>n. tkn' = advance (Suc n) tkn"
  by (auto simp: scanIdentifier_def Let_def adv_simps split: prod.splits option.splits
           dest!: scanIdentifier_loop_advance)

lemma scanBindVar_loop_advance:
  "scanBindVar_loop buffer tkn = (b, tkn') \<Longrightarrow> \<exists>n. tkn' = advance n tkn"
proof (induction buffer tkn rule: scanBindVar_loop.induct)
  case (1 buffer tkn)
  show ?case
  proof (cases "isLetter (lastChar tkn) \<or> isDigit (lastChar tkn) \<or>
      lastChar tkn = uint16 CHR ''.''")
    case True
    with "1.prems" have "scanBindVar_loop (buffer @ [byte (lastChar tkn)]) (next' tkn) = (b, tkn')"
      by (subst (asm) scanBindVar_loop.simps) simp
    from "1.IH" [OF True this] obtain n where "tkn' = advance n (next' tkn)" ..
    then have "tkn' = advance (Suc 0 + n) tkn" by (simp add: adv_simps)
    then show ?thesis ..
  next
    case False
    with "1.prems" have "tkn' = advance 0 tkn"
      by (subst (asm) scanBindVar_loop.simps) (simp add: advance.simps)
    then show ?thesis ..
  qed
qed

lemma scanBindVar_advance:
  "scanBindVar tkn = (r, tkn') \<Longrightarrow> \<exists>n. tkn' = advance (Suc n) tkn"
  by (auto simp: scanBindVar_def Let_def adv_simps split: prod.splits if_splits
           dest!: scanBindVar_loop_advance)


lemma digitVal_EOFCHAR: "digitVal EOFCHAR = 16"
  by (simp add: digitVal_def EOFCHAR_def uint16_def)

lemma EOFCHAR_neq_uint16: "EOFCHAR \<noteq> uint16 c"
  using uint16_neq_EOFCHAR [of c] by simp

lemmas EOF_simps = uint16_neq_EOFCHAR EOFCHAR_neq_uint16

lemma Next_advance: "Next buffer tkn = Some (b, t) \<Longrightarrow> t = advance (Suc 0) tkn"
  by (auto dest!: Next_Some simp: adv_simps)

lemma scanMantissa_advance:
  "scanMantissa base buffer tkn = Some (b, tkn') \<Longrightarrow> \<exists>n. tkn' = advance n tkn"
proof (induction base buffer tkn rule: scanMantissa.induct)
  case (1 base buffer tkn)
  show ?case
  proof (cases "digitVal (lastChar tkn) < base")
    case True
    with "1.prems" obtain b1 t1 where N: "Next buffer tkn = Some (b1, t1)"
      and S: "scanMantissa base b1 t1 = Some (b, tkn')"
      by (subst (asm) scanMantissa.simps) (auto split: Option.bind_splits)
    from "1.IH" [OF True N refl S] obtain n where "tkn' = advance n t1" ..
    with Next_advance [OF N] have "tkn' = advance (Suc 0 + n) tkn" by (simp add: adv_simps)
    then show ?thesis ..
  next
    case False
    with "1.prems" have "tkn' = advance 0 tkn"
      by (subst (asm) scanMantissa.simps) (simp add: advance.simps)
    then show ?thesis ..
  qed
qed

lemma scanMantissa_advance1:
  "digitVal (lastChar tkn) < base \<Longrightarrow> scanMantissa base buffer tkn = Some (b, tkn') \<Longrightarrow>
     \<exists>n. tkn' = advance (Suc n) tkn"
  by (subst (asm) scanMantissa.simps)
     (auto split: Option.bind_splits dest!: Next_advance scanMantissa_advance simp: adv_simps)

text \<open>A computation returns when it does not panic.\<close>

definition returns :: "'a option \<Rightarrow> bool" where
  "returns m \<longleftrightarrow> m \<noteq> None"

lemma returns_Some: "returns (Some x)"
  by (simp add: returns_def)

lemma returns_bind:
  "returns m \<Longrightarrow> (\<And>x. m = Some x \<Longrightarrow> returns (f x)) \<Longrightarrow> returns (Option.bind m f)"
  by (cases m) (simp_all add: returns_def)

lemma returns_Next: "lastChar tkn \<noteq> EOFCHAR \<Longrightarrow> returns (Next buffer tkn)"
  by (simp add: Next_def returns_def)

lemma scanMantissa_returns:
  "base \<le> 16 \<Longrightarrow> returns (scanMantissa base buffer tkn)"
proof (induction base buffer tkn rule: scanMantissa.induct)
  case (1 base buffer tkn)
  show ?case
  proof (cases "digitVal (lastChar tkn) < base")
    case True
    with "1.prems" have "lastChar tkn \<noteq> EOFCHAR"
      by (auto simp: digitVal_EOFCHAR)
    then have N: "Next buffer tkn = Some (buffer @ [byte (lastChar tkn)], next' tkn)"
      by (simp add: Next_def)
    from "1.IH" [OF True N refl "1.prems"] show ?thesis
      using True N by (subst scanMantissa.simps) simp
  next
    case False
    then show ?thesis by (subst scanMantissa.simps) (simp add: returns_Some)
  qed
qed

lemma scanNumber_exponent_returns: "returns (scanNumber_exponent buffer tkn)"
  by (auto simp: scanNumber_exponent_def scanNumber_exit_def EOF_simps
           intro!: returns_bind returns_Next returns_Some scanMantissa_returns)

lemma scanNumber_fraction_returns: "returns (scanNumber_fraction buffer tkn)"
  by (auto simp: scanNumber_fraction_def EOF_simps
           intro!: returns_bind returns_Next returns_Some scanMantissa_returns
                   scanNumber_exponent_returns)

lemma scanNumber_returns: "returns (scanNumber seenDecimalPoint tkn)"
  by (auto simp: scanNumber_def scanNumber_exit_def EOF_simps Let_def
           intro!: returns_bind returns_Next returns_Some scanMantissa_returns
                   scanNumber_exponent_returns scanNumber_fraction_returns)

lemma scanNumber_exponent_advance:
  "scanNumber_exponent buffer tkn = Some (r, tkn') \<Longrightarrow> \<exists>n. tkn' = advance n tkn"
  by (auto simp: scanNumber_exponent_def scanNumber_exit_def adv_simps
           split: if_splits Option.bind_splits
           dest!: Next_advance scanMantissa_advance)

lemma scanNumber_fraction_advance:
  "scanNumber_fraction buffer tkn = Some (r, tkn') \<Longrightarrow> \<exists>n. tkn' = advance n tkn"
  by (auto simp: scanNumber_fraction_def adv_simps
           split: if_splits Option.bind_splits
           dest!: Next_advance scanMantissa_advance scanNumber_exponent_advance)

lemma scanNumber_advance:
  "scanNumber seenDecimalPoint tkn = Some (r, tkn') \<Longrightarrow> \<exists>n. tkn' = advance n tkn"
  by (auto simp: scanNumber_def scanNumber_exit_def Let_def adv_simps
           split: if_splits Option.bind_splits
           dest!: Next_advance scanMantissa_advance scanNumber_fraction_advance
                  scanNumber_exponent_advance)

lemma isDigit_digitVal: "isDigit ch \<Longrightarrow> digitVal ch < 10"
  by (auto simp: isDigit_def digitVal_def uint16_def)


lemma scanNumber_advance1:
  assumes d: "isDigit (lastChar tkn)" and s: "scanNumber False tkn = Some (r, tkn')"
  shows "\<exists>n. tkn' = advance (Suc n) tkn"
proof (cases "lastChar tkn = uint16 CHR ''0''")
  case True
  with s show ?thesis
    by (auto simp: scanNumber_def scanNumber_exit_def Let_def adv_simps
             split: if_splits Option.bind_splits
             dest!: Next_advance scanMantissa_advance scanNumber_fraction_advance)
next
  case False
  with s obtain b t1 where m: "scanMantissa 10 [] tkn = Some (b, t1)"
    and f: "scanNumber_fraction b t1 = Some (r, tkn')"
    by (auto simp: scanNumber_def split: Option.bind_splits)
  from scanMantissa_advance1 [OF isDigit_digitVal [OF d] m]
  obtain n where "t1 = advance (Suc n) tkn" ..
  moreover from scanNumber_fraction_advance [OF f] obtain k where "tkn' = advance k t1" ..
  ultimately have "tkn' = advance (Suc (n + k)) tkn" by (simp add: adv_simps)
  then show ?thesis ..
qed




lemma scanString_loop_advance:
  "scanString_loop sq delim ty buffer tkn = (r, tkn') \<Longrightarrow> \<exists>n. tkn' = advance (Suc n) tkn"
proof (induction "pending tkn" arbitrary: buffer tkn delim rule: less_induct)
  case less
  note unf = less.prems [unfolded scanString_loop.simps [of sq delim ty buffer tkn]]
  have IH1: "\<exists>n. tkn' = advance (Suc (Suc n)) tkn"
    if "scanString_loop sq d ty b (advance (Suc 0) tkn) = (r, tkn')"
      and "lastChar tkn \<noteq> EOFCHAR" for b d
  proof -
    from that(2) have "pending (next' tkn) < pending tkn" by (rule pending_next_less)
    from less.hyps [OF this] that(1) show ?thesis by (simp add: adv_simps)
  qed
  have IH2: "\<exists>n. tkn' = advance (Suc (Suc (Suc n))) tkn"
    if "scanString_loop sq d ty b (advance (Suc (Suc 0)) tkn) = (r, tkn')"
      and "lastChar tkn \<noteq> EOFCHAR" for b d
  proof -
    from that(2) have "pending (next' tkn) < pending tkn" by (rule pending_next_less)
    with pending_next_le [of "next' tkn"] have "pending (next' (next' tkn)) < pending tkn" by simp
    from less.hyps [OF this] that(1) show ?thesis by (simp add: adv_simps)
  qed
  from unf show ?case
    by (auto simp: Let_def EOF_simps adv_simps split: if_splits dest!: IH1 IH2)
qed

lemma scanString_advance:
  "scanString sq delim ty tkn = (r, tkn') \<Longrightarrow> \<exists>n. tkn' = advance (Suc n) tkn"
  unfolding scanString_def by (rule scanString_loop_advance)

lemma scanCommentType2_loop_advance:
  "scanCommentType2_loop buffer tkn = Some (r, tkn') \<Longrightarrow> \<exists>n. tkn' = advance n tkn"
proof (induction "pending tkn" arbitrary: buffer tkn rule: less_induct)
  case less
  note unf = less.prems [unfolded scanCommentType2_loop.simps [of buffer tkn]]
  have IH1: "\<exists>n. tkn' = advance (Suc n) tkn"
    if "scanCommentType2_loop b (advance (Suc 0) tkn) = Some (r, tkn')"
      and "lastChar tkn \<noteq> EOFCHAR" for b
  proof -
    from that(2) have "pending (next' tkn) < pending tkn" by (rule pending_next_less)
    from less.hyps [OF this] that(1) show ?thesis by (simp add: adv_simps)
  qed
  from unf show ?case
    by (auto simp: EOF_simps adv_simps split: if_splits Option.bind_splits
             dest!: Next_advance IH1)
qed

lemma scanCommentType2_loop_returns: "returns (scanCommentType2_loop buffer tkn)"
proof (induction buffer tkn rule: scanCommentType2_loop.induct)
  case (1 buffer tkn)
  have IH1: "returns (scanCommentType2_loop b t)"
    if "lastChar tkn = uint16 CHR ''*''" "Next buffer tkn = Some (b, t)"
      "lastChar t \<noteq> uint16 CHR ''/''" for b t
    using "1.IH"(1) [OF that(1) that(2) refl that(3)] .
  have IH2: "returns (scanCommentType2_loop b t)"
    if "lastChar tkn \<noteq> uint16 CHR ''*''" "lastChar tkn \<noteq> EOFCHAR"
      "Next buffer tkn = Some (b, t)" for b t
    using "1.IH"(2) [OF that(1) that(2) that(3) refl] .
  show ?case
    by (subst scanCommentType2_loop.simps)
       (auto simp: EOF_simps intro!: returns_bind returns_Next returns_Some intro: IH1 IH2)
qed


lemma scanCommentType1_loop_advance:
  "scanCommentType1_loop buffer tkn = Some (r, tkn') \<Longrightarrow> \<exists>n. tkn' = advance n tkn"
proof (induction buffer tkn rule: scanCommentType1_loop.induct)
  case (1 buffer tkn)
  note unf = "1.prems" [unfolded scanCommentType1_loop.simps [of buffer tkn]]
  show ?case
  proof (cases "lastChar tkn \<noteq> EOFCHAR \<and> lastChar tkn \<noteq> uint16 CHR 0x0A")
    case True
    with unf obtain b1 t1 where N: "Next buffer tkn = Some (b1, t1)"
      and S: "scanCommentType1_loop b1 t1 = Some (r, tkn')"
      by (auto split: Option.bind_splits)
    from True have "lastChar tkn \<noteq> EOFCHAR" "lastChar tkn \<noteq> uint16 CHR 0x0A" by simp_all
    from "1.IH" [OF this N refl S] obtain n where "tkn' = advance n t1" ..
    with Next_advance [OF N] have "tkn' = advance (Suc 0 + n) tkn" by (simp add: adv_simps)
    then show ?thesis ..
  next
    case False
    with unf show ?thesis
      by (auto simp: adv_simps split: if_splits Option.bind_splits dest!: Next_advance)
  qed
qed

lemma scanCommentType1_loop_returns: "returns (scanCommentType1_loop buffer tkn)"
proof (induction buffer tkn rule: scanCommentType1_loop.induct)
  case (1 buffer tkn)
  show ?case
    by (subst scanCommentType1_loop.simps)
       (auto intro!: returns_bind returns_Next returns_Some "1.IH")
qed

lemma Scan_default_advanced:
  "Scan_default sq ch tkn = Some (r, tkn') \<Longrightarrow> advanced tkn tkn'"
  by (auto simp: Scan_default_def scanCommentType1_def scanCommentType2_def Let_def adv_simps
                 advanced_update_iff advanced_advance advanced_refl
           split: if_splits
           dest!: scanNumber_advance scanCommentType1_loop_advance scanCommentType2_loop_advance
                  scanString_advance)

lemma returns_if:
  "(c \<Longrightarrow> returns a) \<Longrightarrow> (\<not> c \<Longrightarrow> returns b) \<Longrightarrow> returns (if c then a else b)"
  by simp

lemma Scan_default_returns: "returns (Scan_default sq ch tkn)"
  unfolding Scan_default_def scanCommentType1_def scanCommentType2_def Let_def
  by (intro returns_if returns_Some scanNumber_returns scanCommentType1_loop_returns
        scanCommentType2_loop_returns)

lemma Scan_returns: "returns (Scan sq tkn)"
  unfolding Scan_def Let_def
  by (intro returns_if returns_Some scanNumber_returns Scan_default_returns)

text \<open>The tokenizer at the point where \<^verbatim>\<open>Scan\<close> looks at the lookahead.\<close>

definition dispatch_point :: "Tokenizer \<Rightarrow> Tokenizer" where
  "dispatch_point tkn = skipBlank (if lastChar tkn = 0 then next' tkn else tkn)"

lemma dispatch_point_advance: "\<exists>n. dispatch_point tkn = advance n tkn"
proof (cases "lastChar tkn = 0")
  case True
  obtain n where "skipBlank (next' tkn) = advance n (next' tkn)"
    using skipBlank_advance ..
  with True have "dispatch_point tkn = advance (Suc n) tkn"
    by (simp add: dispatch_point_def advance.simps)
  then show ?thesis ..
next
  case False
  then show ?thesis
    using skipBlank_advance [of tkn] by (simp add: dispatch_point_def)
qed

lemma advanced_advance_Suc: "advanced (advance (Suc 0) tkn) (advance (Suc n) tkn)"
proof -
  have "advance (Suc n) tkn = advance n (advance (Suc 0) tkn)"
    by (simp add: advance_add)
  then show ?thesis by (simp add: advanced_advance)
qed

lemma Scan_advanced1:
  assumes "\<not> ForceEOF tkn" and "Scan sq tkn = Some (r, tkn')"
  shows "advanced (next' (dispatch_point tkn)) tkn'"
  using assms
  by (auto simp: Scan_def dispatch_point_def [symmetric] Let_def adv_simps
                 advanced_advance advanced_advance_Suc
           split: if_splits
           dest!: scanIdentifier_advance scanBindVar_advance scanNumber_advance1
                  Scan_default_advanced)

lemma Scan_advanced: "Scan sq tkn = Some (r, tkn') \<Longrightarrow> advanced tkn tkn'"
proof (cases "ForceEOF tkn")
  case True
  moreover assume "Scan sq tkn = Some (r, tkn')"
  ultimately show ?thesis by (simp add: Scan_def advanced_refl)
next
  case False
  moreover assume "Scan sq tkn = Some (r, tkn')"
  ultimately have "advanced (next' (dispatch_point tkn)) tkn'" by (rule Scan_advanced1)
  moreover obtain n where "dispatch_point tkn = advance n tkn"
    using dispatch_point_advance ..
  then have "advanced tkn (next' (dispatch_point tkn))"
    by (simp add: adv_simps advanced_advance)
  ultimately show ?thesis by (blast intro: advanced_trans)
qed

lemma pending_dispatch_point: "pending (dispatch_point tkn) \<le> pending tkn"
proof -
  obtain n where "dispatch_point tkn = advance n tkn"
    using dispatch_point_advance ..
  then show ?thesis by (simp add: pending_advance)
qed

lemma isLetter_EOFCHAR: "\<not> isLetter EOFCHAR"
  using isLetter_neq_EOFCHAR by blast

lemma isDigit_EOFCHAR: "\<not> isDigit EOFCHAR"
  using isDigit_neq_EOFCHAR by blast

lemma Scan_at_EOFCHAR:
  "\<not> ForceEOF tkn \<Longrightarrow> lastChar (dispatch_point tkn) = EOFCHAR \<Longrightarrow>
     Scan sq tkn = Some ((Code 0, None), next' (dispatch_point tkn))"
  by (simp add: Scan_def dispatch_point_def [symmetric] Let_def isLetter_EOFCHAR isDigit_EOFCHAR
                EOF_simps Scan_default_def)

lemma Scan_progress:
  assumes "Scan sq tkn = Some (tok, tkn')"
  shows "fst tok \<noteq> COMMENT \<and> pending tkn' \<le> pending tkn \<or> pending tkn' < pending tkn"
proof (cases "ForceEOF tkn")
  case True
  with assms show ?thesis by (auto simp: Scan_def)
next
  case False
  note adv = Scan_advanced1 [OF False assms]
  show ?thesis
  proof (cases "lastChar (dispatch_point tkn) = EOFCHAR")
    case True
    from Scan_at_EOFCHAR [OF False True, of sq] assms have "fst tok \<noteq> COMMENT" by auto
    moreover from Scan_advanced [OF assms] have "pending tkn' \<le> pending tkn"
      by (rule advanced_pending)
    ultimately show ?thesis by simp
  next
    case False
    from adv have "pending tkn' \<le> pending (next' (dispatch_point tkn))"
      by (rule advanced_pending)
    also from False have "\<dots> < pending (dispatch_point tkn)" by (rule pending_next_less)
    also have "\<dots> \<le> pending tkn" by (rule pending_dispatch_point)
    finally show ?thesis by simp
  qed
qed

subsection \<open>Lex\<close>

text \<open>
  The loop of \<^verbatim>\<open>Lex\<close>: while the token at hand is a comment and comments are not allowed,
  scan again.
\<close>

function Lex_loop :: "sqltypes \<Rightarrow> token \<Rightarrow> Tokenizer \<Rightarrow> (token \<times> Tokenizer) option" where
  "Lex_loop sq tok tkn =
     (if fst tok = COMMENT then
        (if AllowComments tkn then Some (tok, tkn)
         else do { (tok, tkn) \<leftarrow> Scan sq tkn; Lex_loop sq tok tkn })
      else Some (tok, tkn))"
  by pat_completeness auto
termination
proof (relation "measure (\<lambda>(sq, tok, tkn). 2 * pending tkn + (if fst tok = COMMENT then 1 else 0))",
    goal_cases)
  case 1
  show ?case by simp
next
  case (2 sq tok tkn x tok' tkn')
  then have "Scan sq tkn = Some (tok', tkn')" by simp
  from Scan_progress [OF this] 2 show ?case by auto
qed

declare Lex_loop.simps [simp del]

text \<open>
  \<^verbatim>\<open>Lex\<close> writes the token text to \<^verbatim>\<open>lval.bytes\<close> for the five kinds that carry one and
  leaves \<^verbatim>\<open>lval\<close> alone otherwise; \<open>lval\<close> is the value of \<^verbatim>\<open>lval.bytes\<close> before the call,
  and the second component of the result its value afterwards.
\<close>

definition Lex ::
  "sqltypes \<Rightarrow> string option \<Rightarrow> Tokenizer \<Rightarrow> (token_kind \<times> string option \<times> Tokenizer) option" where
  "Lex sq lval tkn =
     do {
       (tok, tkn) \<leftarrow> Scan sq tkn;
       ((typ, val), tkn) \<leftarrow> Lex_loop sq tok tkn;
       let lval = (if typ \<in> {ID, STRING, NUMBER, VALUE_ARG, COMMENT} then val else lval);
       Some (typ, lval, tkn\<lparr>errorToken := val\<rparr>)
     }"

text \<open>\<^verbatim>\<open>Error\<close>, called by the parser.\<close>

definition Error :: "string \<Rightarrow> Tokenizer \<Rightarrow> Tokenizer" where
  "Error err tkn =
     (case errorToken tkn of
        Some tok \<Rightarrow>
          tkn\<lparr>LastError := err @ '' at position '' @ fmt_d (Position tkn) @ '' near '' @ tok\<rparr>
      | None \<Rightarrow> tkn\<lparr>LastError := err @ '' at position '' @ fmt_d (Position tkn)\<rparr>)"

section \<open>The vocabulary of the claims\<close>

subsection \<open>Runs, and the table used for concrete inputs\<close>

text \<open>
  Modelled from the spec: the escape table \<^verbatim>\<open>SQLDecodeMap\<close> and the constant \<^verbatim>\<open>DONTESCAPE\<close> of
  package \<^verbatim>\<open>sqltypes\<close>, which is not among the sources. The spec names the escapes
  \<^verbatim>\<open>\n\<close>, \<^verbatim>\<open>\t\<close> and \<^verbatim>\<open>\\\<close> and a pass-through default for every other byte. The general
  theorems below hold for every table; this one only instantiates them.
\<close>

definition spec_sqltypes :: sqltypes where
  "spec_sqltypes =
     \<lparr>SQLDecodeMap =
        (\<lambda>c. if c = CHR ''n'' then CHR 0x0A
             else if c = CHR ''t'' then CHR 0x09
             else if c = CHR 0x5C then CHR 0x5C
             else CHR 0xFF),
      DONTESCAPE = CHR 0xFF\<rparr>"

text \<open>\<open>n\<close> calls of \<^verbatim>\<open>Scan\<close> in a row, with the tokens they return.\<close>

fun Scans :: "sqltypes \<Rightarrow> nat \<Rightarrow> Tokenizer \<Rightarrow> (token list \<times> Tokenizer) option" where
  "Scans sq 0 tkn = Some ([], tkn)"
| "Scans sq (Suc n) tkn =
     do {
       (tok, tkn) \<leftarrow> Scan sq tkn;
       (toks, tkn) \<leftarrow> Scans sq n tkn;
       Some (tok # toks, tkn)
     }"

text \<open>
  \<open>n\<close> calls of \<^verbatim>\<open>Lex\<close> in a row on one \<^verbatim>\<open>lval\<close>: the kind each call returns, with the token
  text it leaves in \<^verbatim>\<open>errorToken\<close>.
\<close>

fun Lexes ::
  "sqltypes \<Rightarrow> nat \<Rightarrow> string option \<Rightarrow> Tokenizer \<Rightarrow> (token list \<times> Tokenizer) option" where
  "Lexes sq 0 lval tkn = Some ([], tkn)"
| "Lexes sq (Suc n) lval tkn =
     do {
       (typ, lval, tkn) \<leftarrow> Lex sq lval tkn;
       (toks, tkn') \<leftarrow> Lexes sq n lval tkn;
       Some ((typ, errorToken tkn) # toks, tkn')
     }"

subsection \<open>The text ahead of the tokenizer\<close>

text \<open>
  The lookahead for a text: its first byte, or the sentinel when it is empty. A tokenizer
  \<^emph>\<open>sees\<close> a text when its lookahead is the first byte and the reader holds the rest.
\<close>

definition lookahead :: "string \<Rightarrow> nat" where
  "lookahead s = (case s of [] \<Rightarrow> EOFCHAR | c # _ \<Rightarrow> uint16 c)"

definition sees :: "Tokenizer \<Rightarrow> string \<Rightarrow> bool" where
  "sees tkn s \<longleftrightarrow> lastChar tkn = lookahead s \<and> InStream tkn = tl s"

subsection \<open>Quoted text and block comments, as the spec describes them\<close>

text \<open>
  What the spec says a quoted string is, as a function of the text behind the opening
  delimiter \<open>d\<close>: a doubled delimiter stands for one delimiter, a backslash decodes the
  byte behind it through the escape table (a byte the table does not escape stands for
  itself), and a delimiter that is not doubled closes the string. The result is the
  decoded text with what follows the closing delimiter, or \<open>None\<close> when the input ends
  first.
\<close>

definition unescape :: "sqltypes \<Rightarrow> char \<Rightarrow> char" where
  "unescape sq c = (if SQLDecodeMap sq c = DONTESCAPE sq then c else SQLDecodeMap sq c)"

fun spec_unquote :: "sqltypes \<Rightarrow> char \<Rightarrow> string \<Rightarrow> (string \<times> string) option" where
  "spec_unquote sq d [] = None"
| "spec_unquote sq d [c] = (if c = d then Some ([], []) else None)"
| "spec_unquote sq d (c # c' # cs) =
     (if c = d then
        (if c' = d then map_option (\<lambda>(txt, rest). (d # txt, rest)) (spec_unquote sq d cs)
         else Some ([], c' # cs))
      else if c = CHR 0x5C then
        map_option (\<lambda>(txt, rest). (unescape sq c' # txt, rest)) (spec_unquote sq d cs)
      else map_option (\<lambda>(txt, rest). (c # txt, rest)) (spec_unquote sq d (c' # cs)))"

text \<open>A block comment is closed when \<^verbatim>\<open>*/\<close> occurs in the text behind its \<^verbatim>\<open>/*\<close>.\<close>

fun spec_comment_closed :: "string \<Rightarrow> bool" where
  "spec_comment_closed (a # b # cs) =
     (a = CHR ''*'' \<and> b = CHR ''/'' \<or> spec_comment_closed (b # cs))"
| "spec_comment_closed _ = False"

subsection \<open>Anonymous placeholders\<close>



section \<open>The pull loop\<close>

lemma Lex_loop_returns: "returns (Lex_loop sq tok tkn)"
proof (induction sq tok tkn rule: Lex_loop.induct)
  case (1 sq tok tkn)
  have IH: "returns (Lex_loop sq tok' tkn')"
    if "fst tok = COMMENT" "\<not> AllowComments tkn" "Scan sq tkn = Some (tok', tkn')" for tok' tkn'
    using "1.IH" [OF that refl] .
  show ?case
    by (subst Lex_loop.simps)
       (auto intro!: returns_bind returns_if returns_Some Scan_returns intro: IH)
qed

lemma Lex_returns: "returns (Lex sq lval tkn)"
  unfolding Lex_def Let_def
  by (auto intro!: returns_bind returns_Some Scan_returns Lex_loop_returns)

lemma Lex_loop_kind:
  "Lex_loop sq tok tkn = Some (tok', tkn') \<Longrightarrow> \<not> AllowComments tkn \<Longrightarrow> fst tok' \<noteq> COMMENT"
proof (induction sq tok tkn rule: Lex_loop.induct)
  case (1 sq tok tkn)
  note unf = "1.prems"(1) [unfolded Lex_loop.simps [of sq tok tkn]]
  show ?case
  proof (cases "fst tok = COMMENT")
    case True
    with unf "1.prems"(2) obtain tok1 tkn1 where S: "Scan sq tkn = Some (tok1, tkn1)"
      and L: "Lex_loop sq tok1 tkn1 = Some (tok', tkn')"
      by (auto split: Option.bind_splits)
    from Scan_advanced [OF S] "1.prems"(2) have "\<not> AllowComments tkn1"
      by (auto dest: advanced_flags)
    from "1.IH" [OF True "1.prems"(2) S refl L this] show ?thesis .
  next
    case False
    with unf show ?thesis by auto
  qed
qed

section \<open>No panic, and the position\<close>

lemma Scans_returns: "returns (Scans sq n tkn)"
  by (induction n arbitrary: tkn)
     (auto intro!: returns_bind returns_Some Scan_returns)

lemma Next_None_iff: "Next buffer tkn = None \<longleftrightarrow> lastChar tkn = EOFCHAR"
  by (simp add: Next_def)

text \<open>
  C6. However the tokenizer got where it is, and whatever the escape table: no call of
  \<^verbatim>\<open>Scan\<close>, and no sequence of calls, reaches the panic of \<^verbatim>\<open>Next\<close>. The panic is the only
  source of \<open>None\<close> (a call of \<^verbatim>\<open>Next\<close> gives \<open>None\<close> exactly when the lookahead is the
  end-of-input sentinel), so not panicking is returning \<open>Some\<close> result.
\<close>

theorem Scan_never_panics:
  "Scan sq tkn \<noteq> None \<and> Scans sq n (NewStringTokenizer sql) \<noteq> None \<and>
   Lex sq lval tkn \<noteq> None"
  using Scan_returns [of sq tkn] Scans_returns [of sq n "NewStringTokenizer sql"]
    Lex_returns [of sq lval tkn]
  by (simp add: returns_def)

text \<open>The model can panic: a mantissa of base 17 would run into the sentinel.\<close>

lemma scanMantissa_base17_panics:
  "scanMantissa 17 [] ((NewStringTokenizer [])\<lparr>lastChar := EOFCHAR\<rparr>) = None"
  by code_simp




section \<open>Numbers and identifiers\<close>

lemma lookahead_Nil: "lookahead [] = EOFCHAR"
  by (simp add: lookahead_def)

lemma lookahead_Cons: "lookahead (c # s) = uint16 c"
  by (simp add: lookahead_def)

lemma sees_next: "sees tkn (c # s) \<Longrightarrow> sees (next' tkn) s"
  by (cases s) (simp_all add: sees_def next'_def lookahead_def)

lemma sees_advance: "sees tkn (xs @ ys) \<Longrightarrow> sees (advance (length xs) tkn) ys"
proof (induction xs arbitrary: tkn)
  case Nil
  then show ?case by (simp add: advance.simps)
next
  case (Cons x xs)
  from Cons.prems have "sees (next' tkn) (xs @ ys)" by (simp add: sees_next)
  then have "sees (advance (length xs) (next' tkn)) ys" by (rule Cons.IH)
  then show ?case by (simp add: advance.simps)
qed

lemma Next_sees:
  "sees tkn (c # s) \<Longrightarrow> Next buffer tkn = Some (buffer @ [c], next' tkn)"
  by (simp add: Next_def sees_def lookahead_Cons EOF_simps byte_uint16)

text \<open>\<^verbatim>\<open>scanMantissa\<close> appends the longest run of digits of the base and stops in front of the rest.\<close>

lemma scanMantissa_takeWhile:
  assumes "sees tkn s" and "base \<le> 16"
  shows "scanMantissa base buffer tkn =
    Some (buffer @ takeWhile (\<lambda>c. digitVal (uint16 c) < base) s,
          advance (length (takeWhile (\<lambda>c. digitVal (uint16 c) < base) s)) tkn)"
  using assms(1)
proof (induction s arbitrary: buffer tkn)
  case Nil
  then have "lastChar tkn = EOFCHAR" by (simp add: sees_def lookahead_Nil)
  with assms(2) show ?case
    by (subst scanMantissa.simps) (simp add: digitVal_EOFCHAR advance.simps)
next
  case (Cons c s)
  then have lc: "lastChar tkn = uint16 c" by (simp add: sees_def lookahead_Cons)
  show ?case
  proof (cases "digitVal (uint16 c) < base")
    case True
    from Cons.prems have "sees (next' tkn) s" by (rule sees_next)
    from Cons.IH [OF this, of "buffer @ [c]"] True lc Next_sees [OF Cons.prems, of buffer]
    show ?thesis
      by (subst scanMantissa.simps) (simp add: advance.simps)
  next
    case False
    with lc show ?thesis
      by (subst scanMantissa.simps) (simp add: advance.simps)
  qed
qed

text \<open>Where \<^verbatim>\<open>Scan\<close> starts when the lookahead is already a character that is not blank.\<close>

lemma skipBlank_id:
  "lastChar tkn \<notin> uint16 ` {CHR '' '', CHR 0x0A, CHR 0x0D, CHR 0x09} \<Longrightarrow> skipBlank tkn = tkn"
  by (subst skipBlank.simps) (simp add: Let_def)

lemma isLetter_digit: "isDigit ch \<Longrightarrow> \<not> isLetter ch"
  by (auto simp: isDigit_def isLetter_def uint16_def)

lemma isDigit_0: "isDigit (uint16 CHR ''0'')"
  by (simp add: isDigit_def uint16_def)

text \<open>
  C10. Where \<^verbatim>\<open>Scan\<close> finds \<^verbatim>\<open>0x\<close> or \<^verbatim>\<open>0X\<close> followed by something that is not a
  hexadecimal digit (a byte, or the end of the input), it returns a NUMBER token whose
  text is the two bytes of the prefix, and the tokenizer is left two bytes further, with
  what followed as its lookahead.
\<close>

theorem hex_prefix_alone_is_NUMBER:
  assumes "\<not> ForceEOF tkn"
    and "sees (dispatch_point tkn) (CHR ''0'' # x # rest)"
    and "x = CHR ''x'' \<or> x = CHR ''X''"
    and "digitVal (lookahead rest) = 16"
  shows "Scan sq tkn = Some ((NUMBER, Some [CHR ''0'', x]), advance 2 (dispatch_point tkn)) \<and>
         lastChar (advance 2 (dispatch_point tkn)) = lookahead rest \<and>
         InStream (advance 2 (dispatch_point tkn)) = tl rest"
proof -
  let ?t = "dispatch_point tkn"
  from assms(2) have l0: "lastChar ?t = uint16 CHR ''0''"
    by (simp add: sees_def lookahead_Cons)
  have s1: "sees (next' ?t) (x # rest)" using assms(2) by (rule sees_next)
  then have l1: "lastChar (next' ?t) = uint16 x" by (simp add: sees_def lookahead_Cons)
  have s2: "sees (next' (next' ?t)) rest" using s1 by (rule sees_next)
  have tw: "takeWhile (\<lambda>c. digitVal (uint16 c) < 16) rest = []"
    using assms(4) by (cases rest) (simp_all add: lookahead_Cons)
  have m: "scanMantissa 16 [CHR ''0'', x] (next' (next' ?t)) = Some ([CHR ''0'', x], next' (next' ?t))"
    using scanMantissa_takeWhile [OF s2, of 16 "[CHR ''0'', x]"] tw by (simp add: advance.simps)
  have n: "scanNumber False ?t = Some ((NUMBER, Some [CHR ''0'', x]), next' (next' ?t))"
    using l0 l1 assms(3) Next_sees [OF assms(2), of "[]"] Next_sees [OF s1, of "[CHR ''0'']"] m
    by (auto simp: scanNumber_def scanNumber_exit_def uint16_inject)
  have a2: "advance 2 ?t = next' (next' ?t)"
    by (simp add: numeral_2_eq_2 advance.simps)
  from assms(1) l0 n have "Scan sq tkn = Some ((NUMBER, Some [CHR ''0'', x]), next' (next' ?t))"
    by (simp add: Scan_def dispatch_point_def [symmetric] Let_def isDigit_0 isLetter_digit)
  with s2 a2 show ?thesis by (simp add: sees_def)
qed

theorem hex_prefix_alone_witness:
  "\<not> ForceEOF (NewStringTokenizer ''0xg'') \<and>
   sees (dispatch_point (NewStringTokenizer ''0xg'')) (CHR ''0'' # CHR ''x'' # ''g'') \<and>
   digitVal (lookahead ''g'') = 16 \<and>
   Scan spec_sqltypes (NewStringTokenizer ''0xg'') =
     Some ((NUMBER, Some ''0x''), advance 2 (dispatch_point (NewStringTokenizer ''0xg''))) \<and>
   lastChar (advance 2 (dispatch_point (NewStringTokenizer ''0xg''))) = uint16 CHR ''g''"
proof -
  have 1: "\<not> ForceEOF (NewStringTokenizer ''0xg'')" by code_simp
  have 2: "sees (dispatch_point (NewStringTokenizer ''0xg'')) (CHR ''0'' # CHR ''x'' # ''g'')"
    by code_simp
  have 3: "digitVal (lookahead ''g'') = 16" by code_simp
  from hex_prefix_alone_is_NUMBER [OF 1 2 _ 3, of spec_sqltypes] 1 2 3
  show ?thesis by (simp add: lookahead_Cons)
qed

lemma scanMantissa_buffer:
  assumes "base \<le> 16"
  shows "\<exists>s tkn'. scanMantissa base buffer tkn = Some (buffer @ s, tkn')"
proof (induction "pending tkn" arbitrary: buffer tkn rule: less_induct)
  case less
  show ?case
  proof (cases "digitVal (lastChar tkn) < base")
    case True
    with assms have ne: "lastChar tkn \<noteq> EOFCHAR" by (auto simp: digitVal_EOFCHAR)
    then have "pending (next' tkn) < pending tkn" by (rule pending_next_less)
    from less.hyps [OF this, of "buffer @ [byte (lastChar tkn)]"]
    obtain s tkn' where
      "scanMantissa base (buffer @ [byte (lastChar tkn)]) (next' tkn) =
         Some ((buffer @ [byte (lastChar tkn)]) @ s, tkn')"
      by blast
    with True ne have "scanMantissa base buffer tkn = Some (buffer @ (byte (lastChar tkn) # s), tkn')"
      by (subst scanMantissa.simps) (simp add: Next_def)
    then show ?thesis by blast
  next
    case False
    then have "scanMantissa base buffer tkn = Some (buffer @ [], tkn)"
      by (subst scanMantissa.simps) simp
    then show ?thesis by blast
  qed
qed

lemma scanNumber_exponent_NUMBER:
  "\<exists>s tkn'. scanNumber_exponent buffer tkn = Some ((NUMBER, Some (buffer @ s)), tkn')"
proof (cases "lastChar tkn = uint16 CHR ''e'' \<or> lastChar tkn = uint16 CHR ''E''")
  case False
  then have "scanNumber_exponent buffer tkn = Some ((NUMBER, Some (buffer @ [])), tkn)"
    by (simp add: scanNumber_exponent_def scanNumber_exit_def)
  then show ?thesis by blast
next
  case True
  let ?b1 = "buffer @ [byte (lastChar tkn)]" and ?t1 = "next' tkn"
  from True have N1: "Next buffer tkn = Some (?b1, ?t1)"
    by (auto simp: Next_def EOF_simps)
  show ?thesis
  proof (cases "lastChar ?t1 = uint16 CHR ''+'' \<or> lastChar ?t1 = uint16 CHR ''-''")
    case sign: True
    let ?b2 = "?b1 @ [byte (lastChar ?t1)]" and ?t2 = "next' ?t1"
    from sign have N2: "Next ?b1 ?t1 = Some (?b2, ?t2)"
      by (auto simp: Next_def EOF_simps)
    obtain s tkn' where "scanMantissa 10 ?b2 ?t2 = Some (?b2 @ s, tkn')"
      using scanMantissa_buffer [of 10 ?b2 ?t2] by auto
    with True sign N1 N2 have "scanNumber_exponent buffer tkn =
        Some ((NUMBER, Some (buffer @ (byte (lastChar tkn) # byte (lastChar ?t1) # s))), tkn')"
      by (simp add: scanNumber_exponent_def scanNumber_exit_def)
    then show ?thesis by blast
  next
    case nosign: False
    obtain s tkn' where "scanMantissa 10 ?b1 ?t1 = Some (?b1 @ s, tkn')"
      using scanMantissa_buffer [of 10 ?b1 ?t1] by auto
    with True nosign N1 have "scanNumber_exponent buffer tkn =
        Some ((NUMBER, Some (buffer @ (byte (lastChar tkn) # s))), tkn')"
      by (simp add: scanNumber_exponent_def scanNumber_exit_def)
    then show ?thesis by blast
  qed
qed

lemma scanNumber_fraction_NUMBER:
  "\<exists>s tkn'. scanNumber_fraction buffer tkn = Some ((NUMBER, Some (buffer @ s)), tkn')"
proof (cases "lastChar tkn = uint16 CHR ''.''")
  case False
  with scanNumber_exponent_NUMBER [of buffer tkn] show ?thesis
    by (simp add: scanNumber_fraction_def)
next
  case True
  let ?b1 = "buffer @ [byte (lastChar tkn)]" and ?t1 = "next' tkn"
  from True have N1: "Next buffer tkn = Some (?b1, ?t1)"
    by (auto simp: Next_def EOF_simps)
  obtain s t2 where m: "scanMantissa 10 ?b1 ?t1 = Some (?b1 @ s, t2)"
    using scanMantissa_buffer [of 10 ?b1 ?t1] by auto
  obtain s' tkn' where "scanNumber_exponent (?b1 @ s) t2 = Some ((NUMBER, Some ((?b1 @ s) @ s')), tkn')"
    using scanNumber_exponent_NUMBER by blast
  with True N1 m have "scanNumber_fraction buffer tkn =
      Some ((NUMBER, Some (buffer @ (byte (lastChar tkn) # s @ s'))), tkn')"
    by (simp add: scanNumber_fraction_def)
  then show ?thesis by blast
qed

lemma digitVal_less_10: "digitVal ch < 10 \<longleftrightarrow> isDigit ch"
  by (auto simp: digitVal_def isDigit_def uint16_def)

lemma digitVal_less_8: "isDigit ch \<Longrightarrow> \<not> digitVal ch < 8 \<Longrightarrow> ch = uint16 CHR ''8'' \<or> ch = uint16 CHR ''9''"
  by (auto simp: digitVal_def isDigit_def uint16_def)

lemma digitVal_8_9: "\<not> digitVal (uint16 CHR ''8'') < 8" "\<not> digitVal (uint16 CHR ''9'') < 8"
  by (simp_all add: digitVal_def uint16_def)

lemma isDigit_not_hex_prefix: "isDigit ch \<Longrightarrow> ch \<noteq> uint16 CHR ''x'' \<and> ch \<noteq> uint16 CHR ''X''"
  by (auto simp: isDigit_def uint16_def)

text \<open>
  A literal with a leading zero whose digits \<open>ds\<close> include an 8 or a 9, in front of
  something that is not a digit.
\<close>

lemma scanNumber_leading_zero:
  assumes s0: "sees tkn (CHR ''0'' # ds @ rest)"
    and dig: "\<forall>c\<in>set ds. isDigit (uint16 c)"
    and d89: "CHR ''8'' \<in> set ds \<or> CHR ''9'' \<in> set ds"
    and stop: "\<not> isDigit (lookahead rest)"
  shows "if lookahead rest \<in> uint16 ` {CHR ''.'', CHR ''e'', CHR ''E''}
         then \<exists>txt tkn'. scanNumber False tkn = Some ((NUMBER, Some (CHR ''0'' # ds @ txt)), tkn')
         else scanNumber False tkn =
                Some ((LEX_ERROR, Some (CHR ''0'' # ds)), advance (Suc (length ds)) tkn)"
proof -
  let ?oct = "\<lambda>c. digitVal (uint16 c) < 8" and ?dec = "\<lambda>c. digitVal (uint16 c) < 10"
  let ?os = "takeWhile ?oct ds" and ?ds2 = "dropWhile ?oct ds"
  let ?t1 = "next' tkn"
  let ?t2 = "advance (length ?os) ?t1"
  let ?t3 = "advance (length ?ds2) ?t2"
  from s0 have l0: "lastChar tkn = uint16 CHR ''0''" by (simp add: sees_def lookahead_Cons)
  have N: "Next [] tkn = Some ([CHR ''0''], ?t1)" using Next_sees [OF s0, of "[]"] by simp
  have s1: "sees ?t1 (ds @ rest)" using s0 by (rule sees_next)
  from d89 obtain d where d: "d \<in> set ds" "\<not> ?oct d"
    using digitVal_8_9 by blast
  then have ds_ne: "ds \<noteq> []" by auto
  then obtain d0 ds' where ds: "ds = d0 # ds'" by (cases ds) auto
  with s1 have "lastChar ?t1 = uint16 d0" by (simp add: sees_def lookahead_Cons)
  moreover from dig ds have "isDigit (uint16 d0)" by simp
  ultimately have nox: "lastChar ?t1 \<noteq> uint16 CHR ''x''" "lastChar ?t1 \<noteq> uint16 CHR ''X''"
    using isDigit_not_hex_prefix by auto
  have tw8: "takeWhile ?oct (ds @ rest) = ?os"
    using d by (simp add: takeWhile_append1)
  have m8: "scanMantissa 8 [CHR ''0''] ?t1 = Some (CHR ''0'' # ?os, ?t2)"
    using scanMantissa_takeWhile [OF s1, of 8 "[CHR ''0'']"] tw8 by simp
  have split: "ds @ rest = ?os @ (?ds2 @ rest)" by simp
  have s2: "sees ?t2 (?ds2 @ rest)"
    using s1 sees_advance [of ?t1 ?os "?ds2 @ rest"] by (simp only: split [symmetric])
  from d have ds2_ne: "?ds2 \<noteq> []" by (auto simp: dropWhile_eq_Nil_conv)
  then have hd2: "hd ?ds2 \<in> set ds" "\<not> ?oct (hd ?ds2)"
    using hd_dropWhile [of ?oct ds] set_dropWhileD [of "hd ?ds2" ?oct ds] by auto
  from s2 ds2_ne have l2: "lastChar ?t2 = uint16 (hd ?ds2)"
    by (cases ?ds2) (simp_all add: sees_def lookahead_Cons)
  from hd2 dig have seen: "lastChar ?t2 = uint16 CHR ''8'' \<or> lastChar ?t2 = uint16 CHR ''9''"
    unfolding l2 by (intro digitVal_less_8) auto
  have "\<forall>c\<in>set ?ds2. ?dec c"
    using dig set_dropWhileD [of _ ?oct ds] by (auto simp: digitVal_less_10)
  moreover have "takeWhile ?dec rest = []"
    using stop by (cases rest) (simp_all add: lookahead_Cons digitVal_less_10)
  ultimately have tw10: "takeWhile ?dec (?ds2 @ rest) = ?ds2"
    by (simp add: takeWhile_append2)
  have m10: "scanMantissa 10 (CHR ''0'' # ?os) ?t2 = Some (CHR ''0'' # ds, ?t3)"
    using scanMantissa_takeWhile [OF s2, of 10 "CHR ''0'' # ?os"] tw10 by simp
  have s3: "sees ?t3 rest" using s2 by (rule sees_advance)
  then have l3: "lastChar ?t3 = lookahead rest" by (simp add: sees_def)
  have t3: "?t3 = advance (Suc (length ds)) tkn"
  proof -
    have "length ?os + length ?ds2 = length ds"
      by (metis length_append takeWhile_dropWhile_id)
    then show ?thesis by (simp add: advance_add advance.simps)
  qed
  have unf: "scanNumber False tkn =
      (if lookahead rest = uint16 CHR ''.'' \<or> lookahead rest = uint16 CHR ''e'' \<or>
          lookahead rest = uint16 CHR ''E''
       then scanNumber_fraction (CHR ''0'' # ds) ?t3
       else Some ((LEX_ERROR, Some (CHR ''0'' # ds)), ?t3))"
    using l0 N nox m8 seen m10 l3 by (simp add: scanNumber_def Let_def)
  show ?thesis
  proof (cases "lookahead rest \<in> uint16 ` {CHR ''.'', CHR ''e'', CHR ''E''}")
    case True
    moreover obtain s tkn' where
      "scanNumber_fraction (CHR ''0'' # ds) ?t3 = Some ((NUMBER, Some ((CHR ''0'' # ds) @ s)), tkn')"
      using scanNumber_fraction_NUMBER by blast
    ultimately show ?thesis using unf by auto
  next
    case False
    then show ?thesis using unf t3 by auto
  qed
qed

lemma Scan_digit:
  "\<not> ForceEOF tkn \<Longrightarrow> isDigit (lastChar (dispatch_point tkn)) \<Longrightarrow>
     Scan sq tkn = scanNumber False (dispatch_point tkn)"
  by (simp add: Scan_def dispatch_point_def [symmetric] Let_def isLetter_digit)

text \<open>
  C4. The four literals of the claim, each scanned from a fresh tokenizer and followed by
  the end of the input; and the general rule: where \<^verbatim>\<open>Scan\<close> finds a zero, then digits
  \<open>ds\<close> with an 8 or a 9 among them, then something that is not a digit, it returns a
  lexical error with the text \<open>0 ds\<close>, unless what follows is \<^verbatim>\<open>.\<close>, \<^verbatim>\<open>e\<close> or \<^verbatim>\<open>E\<close>: then
  it returns a NUMBER whose text starts with \<open>0 ds\<close>.
\<close>

theorem numeric_literal_classification:
  "map_option fst (Scans sq 2 (NewStringTokenizer ''0x1A'')) =
     Some [(NUMBER, Some ''0x1A''), (Code 0, None)] \<and>
   map_option fst (Scans sq 2 (NewStringTokenizer ''012'')) =
     Some [(NUMBER, Some ''012''), (Code 0, None)] \<and>
   map_option fst (Scans sq 2 (NewStringTokenizer ''089'')) =
     Some [(LEX_ERROR, Some ''089''), (Code 0, None)] \<and>
   map_option fst (Scans sq 2 (NewStringTokenizer ''3.14e-2'')) =
     Some [(NUMBER, Some ''3.14e-2''), (Code 0, None)] \<and>
   (\<not> ForceEOF tkn \<and> sees (dispatch_point tkn) (CHR ''0'' # ds @ rest) \<and>
    (\<forall>c\<in>set ds. isDigit (uint16 c)) \<and> (CHR ''8'' \<in> set ds \<or> CHR ''9'' \<in> set ds) \<and>
    \<not> isDigit (lookahead rest) \<longrightarrow>
    (if lookahead rest \<in> uint16 ` {CHR ''.'', CHR ''e'', CHR ''E''}
     then \<exists>txt tkn'. Scan sq tkn = Some ((NUMBER, Some (CHR ''0'' # ds @ txt)), tkn')
     else Scan sq tkn =
            Some ((LEX_ERROR, Some (CHR ''0'' # ds)),
                  advance (Suc (length ds)) (dispatch_point tkn))))"
proof -
  have 1: "map_option fst (Scans sq 2 (NewStringTokenizer ''0x1A'')) =
     Some [(NUMBER, Some ''0x1A''), (Code 0, None)]"
    by code_simp
  have 2: "map_option fst (Scans sq 2 (NewStringTokenizer ''012'')) =
     Some [(NUMBER, Some ''012''), (Code 0, None)]"
    by code_simp
  have 3: "map_option fst (Scans sq 2 (NewStringTokenizer ''089'')) =
     Some [(LEX_ERROR, Some ''089''), (Code 0, None)]"
    by code_simp
  have 4: "map_option fst (Scans sq 2 (NewStringTokenizer ''3.14e-2'')) =
     Some [(NUMBER, Some ''3.14e-2''), (Code 0, None)]"
    by code_simp
  have 5: "if lookahead rest \<in> uint16 ` {CHR ''.'', CHR ''e'', CHR ''E''}
     then \<exists>txt tkn'. Scan sq tkn = Some ((NUMBER, Some (CHR ''0'' # ds @ txt)), tkn')
     else Scan sq tkn =
            Some ((LEX_ERROR, Some (CHR ''0'' # ds)),
                  advance (Suc (length ds)) (dispatch_point tkn))"
    if h: "\<not> ForceEOF tkn" "sees (dispatch_point tkn) (CHR ''0'' # ds @ rest)"
      "\<forall>c\<in>set ds. isDigit (uint16 c)" "CHR ''8'' \<in> set ds \<or> CHR ''9'' \<in> set ds"
      "\<not> isDigit (lookahead rest)"
  proof -
    from h(2) have "lastChar (dispatch_point tkn) = uint16 CHR ''0''"
      by (simp add: sees_def lookahead_Cons)
    then have "Scan sq tkn = scanNumber False (dispatch_point tkn)"
      using h(1) by (simp add: Scan_digit isDigit_0)
    with scanNumber_leading_zero [OF h(2) h(3) h(4) h(5)] show ?thesis by simp
  qed
  from 1 2 3 4 5 show ?thesis by blast
qed

theorem numeric_literal_classification_witness:
  "\<not> ForceEOF (NewStringTokenizer ''0189;'') \<and>
   sees (dispatch_point (NewStringTokenizer ''0189;'')) (CHR ''0'' # ''189'' @ '';'') \<and>
   list_all (\<lambda>c. isDigit (uint16 c)) ''189'' \<and>
   (CHR ''8'' \<in> set ''189'' \<or> CHR ''9'' \<in> set ''189'') \<and>
   \<not> isDigit (lookahead '';'') \<and>
   lookahead '';'' \<notin> uint16 ` {CHR ''.'', CHR ''e'', CHR ''E''} \<and>
   Scan spec_sqltypes (NewStringTokenizer ''0189;'') =
     Some ((LEX_ERROR, Some ''0189''), advance 4 (dispatch_point (NewStringTokenizer ''0189;'')))"
proof -
  have 1: "\<not> ForceEOF (NewStringTokenizer ''0189;'')" by code_simp
  have 2: "sees (dispatch_point (NewStringTokenizer ''0189;'')) (CHR ''0'' # ''189'' @ '';'')"
    by code_simp
  have 3: "list_all (\<lambda>c. isDigit (uint16 c)) ''189''" by code_simp
  then have ball3: "\<forall>c\<in>set ''189''. isDigit (uint16 c)" by (simp only: list_all_iff)
  have 4: "CHR ''8'' \<in> set ''189'' \<or> CHR ''9'' \<in> set ''189''" by simp
  have 5: "\<not> isDigit (lookahead '';'')" by code_simp
  have 6: "lookahead '';'' \<notin> uint16 ` {CHR ''.'', CHR ''e'', CHR ''E''}" by code_simp
  from numeric_literal_classification [of spec_sqltypes "NewStringTokenizer ''0189;''" "''189''" "'';''"]
    1 2 3 ball3 4 5 6
  show ?thesis by (simp add: numeral_eq_Suc)
qed

text \<open>\<^verbatim>\<open>scanIdentifier\<close>'s loop appends the longest run of letters and digits.\<close>

lemma scanIdentifier_loop_takeWhile:
  assumes "sees tkn s"
  shows "scanIdentifier_loop buffer tkn =
    (buffer @ takeWhile (\<lambda>c. isLetter (uint16 c) \<or> isDigit (uint16 c)) s,
     advance (length (takeWhile (\<lambda>c. isLetter (uint16 c) \<or> isDigit (uint16 c)) s)) tkn)"
  using assms
proof (induction s arbitrary: buffer tkn)
  case Nil
  then have "lastChar tkn = EOFCHAR" by (simp add: sees_def lookahead_Nil)
  then show ?case
    by (subst scanIdentifier_loop.simps)
       (simp add: isLetter_EOFCHAR isDigit_EOFCHAR advance.simps)
next
  case (Cons c s)
  then have lc: "lastChar tkn = uint16 c" by (simp add: sees_def lookahead_Cons)
  show ?case
  proof (cases "isLetter (uint16 c) \<or> isDigit (uint16 c)")
    case True
    from Cons.prems have "sees (next' tkn) s" by (rule sees_next)
    from Cons.IH [OF this, of "buffer @ [c]"] True lc
    show ?thesis
      by (subst scanIdentifier_loop.simps) (simp add: advance.simps byte_uint16)
  next
    case False
    with lc show ?thesis
      by (subst scanIdentifier_loop.simps) (simp add: advance.simps)
  qed
qed

text \<open>
  C8. Where \<^verbatim>\<open>Scan\<close> finds a letter \<open>c\<close>, then letters and digits \<open>cs\<close>, then something that is
  neither: if the keyword table has the lower-cased spelling, the token is that keyword's
  kind with the lower-cased text, otherwise it is an identifier with the text as written.
  The tokenizer is left behind the word. The four words of the claim follow.
\<close>

theorem keyword_or_identifier:
  "(\<not> ForceEOF tkn \<and> sees (dispatch_point tkn) ((c # cs) @ rest) \<and> isLetter (uint16 c) \<and>
    (\<forall>x\<in>set cs. isLetter (uint16 x) \<or> isDigit (uint16 x)) \<and>
    \<not> (isLetter (lookahead rest) \<or> isDigit (lookahead rest)) \<longrightarrow>
    Scan sq tkn =
      Some ((case keywords' (ToLower (c # cs)) of
               Some keywordID \<Rightarrow> (keywordID, Some (ToLower (c # cs)))
             | None \<Rightarrow> (ID, Some (c # cs))),
            advance (length (c # cs)) (dispatch_point tkn)) \<and>
    sees (advance (length (c # cs)) (dispatch_point tkn)) rest) \<and>
   map_option fst (Scan sq (NewStringTokenizer ''SELECT'')) = Some (KW ''SELECT'', Some ''select'') \<and>
   map_option fst (Scan sq (NewStringTokenizer ''Select'')) = Some (KW ''SELECT'', Some ''select'') \<and>
   map_option fst (Scan sq (NewStringTokenizer ''select'')) = Some (KW ''SELECT'', Some ''select'') \<and>
   map_option fst (Scan sq (NewStringTokenizer ''MyTable'')) = Some (ID, Some ''MyTable'')"
proof -
  have 1: "Scan sq tkn =
      Some ((case keywords' (ToLower (c # cs)) of
               Some keywordID \<Rightarrow> (keywordID, Some (ToLower (c # cs)))
             | None \<Rightarrow> (ID, Some (c # cs))),
            advance (length (c # cs)) (dispatch_point tkn)) \<and>
    sees (advance (length (c # cs)) (dispatch_point tkn)) rest"
    if h: "\<not> ForceEOF tkn" "sees (dispatch_point tkn) ((c # cs) @ rest)" "isLetter (uint16 c)"
      "\<forall>x\<in>set cs. isLetter (uint16 x) \<or> isDigit (uint16 x)"
      "\<not> (isLetter (lookahead rest) \<or> isDigit (lookahead rest))"
  proof -
    let ?t = "dispatch_point tkn"
    let ?P = "\<lambda>c. isLetter (uint16 c) \<or> isDigit (uint16 c)"
    from h(2) have lc: "lastChar ?t = uint16 c" by (simp add: sees_def lookahead_Cons)
    from h(2) have s1: "sees (next' ?t) (cs @ rest)" by (simp add: sees_next)
    have "takeWhile ?P rest = []"
      using h(5) by (cases rest) (simp_all add: lookahead_Cons)
    with h(4) have tw: "takeWhile ?P (cs @ rest) = cs"
      by (simp add: takeWhile_append2)
    have loop: "scanIdentifier_loop [c] (next' ?t) = (c # cs, advance (length cs) (next' ?t))"
      using scanIdentifier_loop_takeWhile [OF s1, of "[c]"] tw by simp
    have "Scan sq tkn = Some (scanIdentifier ?t)"
      using h(1) h(3) lc by (simp add: Scan_def dispatch_point_def [symmetric] Let_def)
    also have "scanIdentifier ?t =
        ((case keywords' (ToLower (c # cs)) of
            Some keywordID \<Rightarrow> (keywordID, Some (ToLower (c # cs)))
          | None \<Rightarrow> (ID, Some (c # cs))),
         advance (length (c # cs)) ?t)"
      using lc loop
      by (simp add: scanIdentifier_def Let_def byte_uint16 advance.simps split: option.split)
    finally have "Scan sq tkn =
      Some ((case keywords' (ToLower (c # cs)) of
               Some keywordID \<Rightarrow> (keywordID, Some (ToLower (c # cs)))
             | None \<Rightarrow> (ID, Some (c # cs))),
            advance (length (c # cs)) ?t)" .
    moreover have "sees (advance (length (c # cs)) ?t) rest"
      using h(2) by (rule sees_advance)
    ultimately show ?thesis by simp
  qed
  have 2: "map_option fst (Scan sq (NewStringTokenizer ''SELECT'')) = Some (KW ''SELECT'', Some ''select'')"
    by code_simp
  have 3: "map_option fst (Scan sq (NewStringTokenizer ''Select'')) = Some (KW ''SELECT'', Some ''select'')"
    by code_simp
  have 4: "map_option fst (Scan sq (NewStringTokenizer ''select'')) = Some (KW ''SELECT'', Some ''select'')"
    by code_simp
  have 5: "map_option fst (Scan sq (NewStringTokenizer ''MyTable'')) = Some (ID, Some ''MyTable'')"
    by code_simp
  from 1 2 3 4 5 show ?thesis by blast
qed

theorem keyword_or_identifier_witness:
  "\<not> ForceEOF (NewStringTokenizer ''From t1'') \<and>
   sees (dispatch_point (NewStringTokenizer ''From t1'')) ((CHR ''F'' # ''rom'') @ '' t1'') \<and>
   isLetter (uint16 CHR ''F'') \<and>
   list_all (\<lambda>x. isLetter (uint16 x) \<or> isDigit (uint16 x)) ''rom'' \<and>
   \<not> (isLetter (lookahead '' t1'') \<or> isDigit (lookahead '' t1'')) \<and>
   Scan spec_sqltypes (NewStringTokenizer ''From t1'') =
     Some ((KW ''FROM'', Some ''from''), advance 4 (dispatch_point (NewStringTokenizer ''From t1'')))"
proof -
  have 1: "\<not> ForceEOF (NewStringTokenizer ''From t1'')" by code_simp
  have 2: "sees (dispatch_point (NewStringTokenizer ''From t1'')) ((CHR ''F'' # ''rom'') @ '' t1'')"
    by code_simp
  have 3: "isLetter (uint16 CHR ''F'')" by code_simp
  have 4: "list_all (\<lambda>x. isLetter (uint16 x) \<or> isDigit (uint16 x)) ''rom''" by code_simp
  then have ball4: "\<forall>x\<in>set ''rom''. isLetter (uint16 x) \<or> isDigit (uint16 x)"
    by (simp only: list_all_iff)
  have 5: "\<not> (isLetter (lookahead '' t1'') \<or> isDigit (lookahead '' t1''))" by code_simp
  have 6: "keywords' (ToLower ''From'') = Some (KW ''FROM'')" by code_simp
  have 7: "ToLower ''From'' = ''from''" by code_simp
  from keyword_or_identifier [of "NewStringTokenizer ''From t1''" "CHR ''F''" "''rom''" "'' t1''"
      spec_sqltypes] 1 2 3 4 ball4 5 6 7
  show ?thesis by (simp add: numeral_eq_Suc)
qed

section \<open>Quoted strings and block comments\<close>

subsection \<open>One turn of the loop of \<^verbatim>\<open>scanString\<close>\<close>

lemma sees_Cons_next: "sees tkn (c # s) \<Longrightarrow> lastChar (next' tkn) = lookahead s"
  using sees_next [of tkn c s] by (simp add: sees_def)

lemma scanString_loop_eof:
  "sees tkn [] \<Longrightarrow>
     scanString_loop sq (uint16 d) ty buffer tkn = ((LEX_ERROR, Some buffer), next' tkn)"
  by (subst scanString_loop.simps)
     (simp add: sees_def lookahead_Nil Let_def EOF_simps)

lemma scanString_loop_close:
  "sees tkn (d # s) \<Longrightarrow> lookahead s \<noteq> uint16 d \<Longrightarrow>
     scanString_loop sq (uint16 d) ty buffer tkn = ((ty, Some buffer), next' tkn)"
  using sees_Cons_next [of tkn d s]
  by (subst scanString_loop.simps) (simp add: sees_def lookahead_Cons Let_def)

lemma scanString_loop_doubled:
  "sees tkn (d # d # s) \<Longrightarrow>
     scanString_loop sq (uint16 d) ty buffer tkn =
     scanString_loop sq (uint16 d) ty (buffer @ [d]) (next' (next' tkn))"
  using sees_Cons_next [of tkn d "d # s"]
  by (subst scanString_loop.simps)
     (simp add: sees_def lookahead_Cons Let_def EOF_simps byte_uint16)

lemma scanString_loop_escape_eof:
  "sees tkn [CHR 0x5C] \<Longrightarrow> d \<noteq> CHR 0x5C \<Longrightarrow>
     scanString_loop sq (uint16 d) ty buffer tkn = ((LEX_ERROR, Some buffer), next' tkn)"
  using sees_Cons_next [of tkn "CHR 0x5C" "[]"]
  by (subst scanString_loop.simps)
     (simp add: sees_def lookahead_Cons lookahead_Nil Let_def uint16_inject)

lemma scanString_loop_escape:
  "sees tkn (CHR 0x5C # c # s) \<Longrightarrow> d \<noteq> CHR 0x5C \<Longrightarrow>
     scanString_loop sq (uint16 d) ty buffer tkn =
     scanString_loop sq (uint16 d) ty (buffer @ [unescape sq c]) (next' (next' tkn))"
  using sees_Cons_next [of tkn "CHR 0x5C" "c # s"]
  by (subst scanString_loop.simps)
     (simp add: sees_def lookahead_Cons Let_def uint16_inject EOF_simps byte_uint16 unescape_def)

lemma scanString_loop_plain:
  "sees tkn (c # s) \<Longrightarrow> c \<noteq> d \<Longrightarrow> c \<noteq> CHR 0x5C \<Longrightarrow>
     scanString_loop sq (uint16 d) ty buffer tkn =
     scanString_loop sq (uint16 d) ty (buffer @ [c]) (next' tkn)"
  by (subst scanString_loop.simps)
     (simp add: sees_def lookahead_Cons Let_def uint16_inject EOF_simps byte_uint16)

subsection \<open>\<^verbatim>\<open>scanString\<close> computes what the spec describes\<close>

lemma scanString_loop_unquote_Some:
  "sees tkn s \<Longrightarrow> spec_unquote sq d s = Some (out, rest) \<Longrightarrow>
     \<exists>tkn'. scanString_loop sq (uint16 d) ty buffer tkn = ((ty, Some (buffer @ out)), tkn') \<and>
            sees tkn' rest"
proof (induction sq d s arbitrary: tkn buffer out rule: spec_unquote.induct)
  case (1 sq d)
  then show ?case by simp
next
  case (2 sq d c)
  then have c: "c = d" and out: "out = []" and rest: "rest = []"
    by (auto split: if_splits)
  from "2.prems"(1) c have "scanString_loop sq (uint16 d) ty buffer tkn = ((ty, Some buffer), next' tkn)"
    by (intro scanString_loop_close [where s = "[]"]) (simp_all add: lookahead_Nil EOF_simps)
  moreover from "2.prems"(1) have "sees (next' tkn) []" by (rule sees_next)
  ultimately show ?case using out rest by simp
next
  case (3 sq d c c' cs)
  have s1: "sees (next' tkn) (c' # cs)" using "3.prems"(1) by (rule sees_next)
  have s2: "sees (next' (next' tkn)) cs" using s1 by (rule sees_next)
  consider (close) "c = d" "c' \<noteq> d" | (doubled) "c = d" "c' = d"
    | (escape) "c \<noteq> d" "c = CHR 0x5C" | (plain) "c \<noteq> d" "c \<noteq> CHR 0x5C"
    by blast
  then show ?case
  proof cases
    case close
    with "3.prems"(2) have out: "out = []" "rest = c' # cs" by simp_all
    from "3.prems"(1) close
    have "scanString_loop sq (uint16 d) ty buffer tkn = ((ty, Some buffer), next' tkn)"
      by (intro scanString_loop_close [where s = "c' # cs"])
         (simp_all add: lookahead_Cons uint16_inject)
    with s1 out show ?thesis by simp
  next
    case doubled
    with "3.prems"(2) obtain out' where u: "spec_unquote sq d cs = Some (out', rest)"
      and out: "out = d # out'"
      by auto
    from "3.IH"(1) [OF doubled s2 u, of "buffer @ [d]"] "3.prems"(1) doubled out
    show ?thesis by (simp add: scanString_loop_doubled)
  next
    case escape
    with "3.prems"(2) obtain out' where u: "spec_unquote sq d cs = Some (out', rest)"
      and out: "out = unescape sq c' # out'"
      by auto
    from escape have d: "d \<noteq> CHR 0x5C" by auto
    from "3.IH"(2) [OF escape s2 u, of "buffer @ [unescape sq c']"] "3.prems"(1) escape out d
    show ?thesis by (simp add: scanString_loop_escape)
  next
    case plain
    with "3.prems"(2) obtain out' where u: "spec_unquote sq d (c' # cs) = Some (out', rest)"
      and out: "out = c # out'"
      by auto
    from "3.IH"(3) [OF plain s1 u, of "buffer @ [c]"] "3.prems"(1) plain out
    show ?thesis by (simp add: scanString_loop_plain)
  qed
qed

lemma scanString_loop_unquote_None:
  "sees tkn s \<Longrightarrow> spec_unquote sq d s = None \<Longrightarrow>
     \<exists>txt tkn'. scanString_loop sq (uint16 d) ty buffer tkn = ((LEX_ERROR, Some txt), tkn')"
proof (induction sq d s arbitrary: tkn buffer rule: spec_unquote.induct)
  case (1 sq d)
  then show ?case by (simp add: scanString_loop_eof)
next
  case (2 sq d c)
  then have c: "c \<noteq> d" by (auto split: if_splits)
  have s1: "sees (next' tkn) []" using "2.prems"(1) by (rule sees_next)
  show ?case
  proof (cases "c = CHR 0x5C")
    case True
    with "2.prems"(1) c show ?thesis by (simp add: scanString_loop_escape_eof)
  next
    case False
    with "2.prems"(1) c s1 show ?thesis
      by (simp add: scanString_loop_plain scanString_loop_eof)
  qed
next
  case (3 sq d c c' cs)
  have s1: "sees (next' tkn) (c' # cs)" using "3.prems"(1) by (rule sees_next)
  have s2: "sees (next' (next' tkn)) cs" using s1 by (rule sees_next)
  consider (close) "c = d" "c' \<noteq> d" | (doubled) "c = d" "c' = d"
    | (escape) "c \<noteq> d" "c = CHR 0x5C" | (plain) "c \<noteq> d" "c \<noteq> CHR 0x5C"
    by blast
  then show ?case
  proof cases
    case close
    with "3.prems"(2) show ?thesis by simp
  next
    case doubled
    with "3.prems"(2) have u: "spec_unquote sq d cs = None" by simp
    from "3.IH"(1) [OF doubled s2 u, of "buffer @ [d]"] "3.prems"(1) doubled
    show ?thesis by (simp add: scanString_loop_doubled)
  next
    case escape
    with "3.prems"(2) have u: "spec_unquote sq d cs = None" by simp
    from escape have d: "d \<noteq> CHR 0x5C" by auto
    from "3.IH"(2) [OF escape s2 u, of "buffer @ [unescape sq c']"] "3.prems"(1) escape d
    show ?thesis by (simp add: scanString_loop_escape)
  next
    case plain
    with "3.prems"(2) have u: "spec_unquote sq d (c' # cs) = None" by simp
    from "3.IH"(3) [OF plain s1 u, of "buffer @ [c]"] "3.prems"(1) plain
    show ?thesis by (simp add: scanString_loop_plain)
  qed
qed

lemma no_delimiter_unquote: "d \<notin> set s \<Longrightarrow> spec_unquote sq d s = None"
  by (induction sq d s rule: spec_unquote.induct) auto

text \<open>\<^verbatim>\<open>Scan\<close> at a quote.\<close>

lemma isLetter_quote:
  "q \<in> {CHR 0x27, CHR 0x22, CHR 0x60} \<Longrightarrow> \<not> isLetter (uint16 q) \<and> \<not> isDigit (uint16 q)"
  by (auto simp: isLetter_def isDigit_def uint16_def)

lemma Scan_quote:
  assumes "\<not> ForceEOF tkn" and "sees (dispatch_point tkn) (q # body)"
    and "q \<in> {CHR 0x27, CHR 0x22, CHR 0x60}"
  shows "Scan sq tkn =
    Some (scanString_loop sq (uint16 q) (if q = CHR 0x60 then ID else STRING) []
            (next' (dispatch_point tkn)))"
proof -
  from assms(2) have "lastChar (dispatch_point tkn) = uint16 q"
    by (simp add: sees_def lookahead_Cons)
  with assms(1) assms(3) isLetter_quote [OF assms(3)] show ?thesis
    by (auto simp: Scan_def dispatch_point_def [symmetric] Let_def Scan_default_def
                   uint16_inject EOF_simps scanString_def)
qed

lemma scanCommentType2_loop_unclosed:
  "sees tkn body \<Longrightarrow> \<not> spec_comment_closed body \<Longrightarrow>
     \<exists>tkn'. scanCommentType2_loop buffer tkn = Some ((LEX_ERROR, Some (buffer @ body)), tkn')"
proof (induction body arbitrary: tkn buffer)
  case Nil
  then have "lastChar tkn = EOFCHAR" by (simp add: sees_def lookahead_Nil)
  then show ?case
    by (subst scanCommentType2_loop.simps) (simp add: EOF_simps)
next
  case (Cons c body)
  from Cons.prems(1) have lc: "lastChar tkn = uint16 c" by (simp add: sees_def lookahead_Cons)
  have N: "Next buffer tkn = Some (buffer @ [c], next' tkn)"
    using Cons.prems(1) by (rule Next_sees)
  have s1: "sees (next' tkn) body" using Cons.prems(1) by (rule sees_next)
  from Cons.prems(2) have nc: "\<not> spec_comment_closed body"
    by (cases body) auto
  from Cons.IH [OF s1 nc, of "buffer @ [c]"]
  obtain tkn' where rec:
    "scanCommentType2_loop (buffer @ [c]) (next' tkn) = Some ((LEX_ERROR, Some (buffer @ c # body)), tkn')"
    by auto
  show ?case
  proof (cases "c = CHR ''*''")
    case True
    with Cons.prems(2) have "lookahead body \<noteq> uint16 CHR ''/''"
      by (cases body) (auto simp: lookahead_Cons lookahead_Nil EOF_simps uint16_inject)
    with s1 have "lastChar (next' tkn) \<noteq> uint16 CHR ''/''" by (simp add: sees_def)
    with True lc N rec show ?thesis
      by (subst scanCommentType2_loop.simps) simp
  next
    case False
    with lc N rec show ?thesis
      by (subst scanCommentType2_loop.simps) (simp add: uint16_inject EOF_simps)
  qed
qed

lemma Scan_block_comment:
  assumes "\<not> ForceEOF tkn" and "sees (dispatch_point tkn) (CHR ''/'' # CHR ''*'' # body)"
  shows "Scan sq tkn = scanCommentType2_loop ''/*'' (next' (next' (dispatch_point tkn)))"
proof -
  from assms(2) have "lastChar (dispatch_point tkn) = uint16 CHR ''/''"
    by (simp add: sees_def lookahead_Cons)
  moreover have "\<not> isLetter (uint16 CHR ''/'')" "\<not> isDigit (uint16 CHR ''/'')"
    by (simp_all add: isLetter_def isDigit_def uint16_def)
  moreover from assms(2) have "lastChar (next' (dispatch_point tkn)) = uint16 CHR ''*''"
    using sees_Cons_next [of "dispatch_point tkn" "CHR ''/''" "CHR ''*'' # body"]
    by (simp add: lookahead_Cons)
  ultimately show ?thesis using assms(1)
    by (simp add: Scan_def dispatch_point_def [symmetric] Let_def Scan_default_def
                  uint16_inject EOF_simps scanCommentType2_def)
qed

text \<open>
  C5. Where \<^verbatim>\<open>Scan\<close> finds a quote (\<^verbatim>\<open>'\<close>, \<^verbatim>\<open>"\<close> or a backtick) and the input ends before
  the string is closed, and where it finds \<^verbatim>\<open>/*\<close> and no \<^verbatim>\<open>*/\<close> follows, it returns a
  lexical-error token: it returns (every function of the model is total, and the result
  is not the panic), and the kind is \<^verbatim>\<open>LEX_ERROR\<close>. For the comment the text is all that was
  read. The two inputs of the spec follow.
\<close>

theorem unterminated_is_LEX_ERROR:
  "(\<not> ForceEOF tkn \<and> sees (dispatch_point tkn) (q # body) \<and>
    q \<in> {CHR 0x27, CHR 0x22, CHR 0x60} \<and> spec_unquote sq q body = None \<longrightarrow>
    (\<exists>txt tkn'. Scan sq tkn = Some ((LEX_ERROR, Some txt), tkn'))) \<and>
   (\<not> ForceEOF tkn \<and> sees (dispatch_point tkn) (CHR ''/'' # CHR ''*'' # body) \<and>
    \<not> spec_comment_closed body \<longrightarrow>
    (\<exists>tkn'. Scan sq tkn = Some ((LEX_ERROR, Some (CHR ''/'' # CHR ''*'' # body)), tkn'))) \<and>
   map_option fst (Scan sq (NewStringTokenizer (CHR 0x27 # ''abc''))) =
     Some (LEX_ERROR, Some ''abc'') \<and>
   map_option fst (Scan sq (NewStringTokenizer ''/* abc'')) = Some (LEX_ERROR, Some ''/* abc'')"
proof -
  have 1: "\<exists>txt tkn'. Scan sq tkn = Some ((LEX_ERROR, Some txt), tkn')"
    if h: "\<not> ForceEOF tkn" "sees (dispatch_point tkn) (q # body)"
      "q \<in> {CHR 0x27, CHR 0x22, CHR 0x60}" "spec_unquote sq q body = None"
  proof -
    have "sees (next' (dispatch_point tkn)) body" using h(2) by (rule sees_next)
    from scanString_loop_unquote_None [OF this h(4)] Scan_quote [OF h(1) h(2) h(3)]
    show ?thesis by metis
  qed
  have 2: "\<exists>tkn'. Scan sq tkn = Some ((LEX_ERROR, Some (CHR ''/'' # CHR ''*'' # body)), tkn')"
    if h: "\<not> ForceEOF tkn" "sees (dispatch_point tkn) (CHR ''/'' # CHR ''*'' # body)"
      "\<not> spec_comment_closed body"
  proof -
    have "sees (next' (next' (dispatch_point tkn))) body"
      using h(2) by (intro sees_next)
    from scanCommentType2_loop_unclosed [OF this h(3), of "''/*''"] Scan_block_comment [OF h(1) h(2)]
    show ?thesis by simp
  qed
  have 3: "map_option fst (Scan sq (NewStringTokenizer (CHR 0x27 # ''abc''))) =
     Some (LEX_ERROR, Some ''abc'')"
    by code_simp
  have 4: "map_option fst (Scan sq (NewStringTokenizer ''/* abc'')) = Some (LEX_ERROR, Some ''/* abc'')"
    by code_simp
  from 1 2 3 4 show ?thesis by blast
qed

theorem unterminated_is_LEX_ERROR_witness:
  "\<not> ForceEOF (NewStringTokenizer (CHR 0x22 # ''it'' @ [CHR 0x22, CHR 0x22])) \<and>
   sees (dispatch_point (NewStringTokenizer (CHR 0x22 # ''it'' @ [CHR 0x22, CHR 0x22])))
     (CHR 0x22 # ''it'' @ [CHR 0x22, CHR 0x22]) \<and>
   spec_unquote spec_sqltypes (CHR 0x22) (''it'' @ [CHR 0x22, CHR 0x22]) = None \<and>
   (\<exists>txt tkn'. Scan spec_sqltypes (NewStringTokenizer (CHR 0x22 # ''it'' @ [CHR 0x22, CHR 0x22])) =
      Some ((LEX_ERROR, Some txt), tkn')) \<and>
   \<not> ForceEOF (NewStringTokenizer ''/* a * / **'') \<and>
   sees (dispatch_point (NewStringTokenizer ''/* a * / **'')) (CHR ''/'' # CHR ''*'' # '' a * / **'') \<and>
   \<not> spec_comment_closed '' a * / **'' \<and>
   (\<exists>tkn'. Scan spec_sqltypes (NewStringTokenizer ''/* a * / **'') =
      Some ((LEX_ERROR, Some ''/* a * / **''), tkn'))"
proof -
  let ?s = "CHR 0x22 # ''it'' @ [CHR 0x22, CHR 0x22]"
  have 1: "\<not> ForceEOF (NewStringTokenizer ?s)" by code_simp
  have 2: "sees (dispatch_point (NewStringTokenizer ?s)) (CHR 0x22 # ''it'' @ [CHR 0x22, CHR 0x22])"
    by code_simp
  have 3: "spec_unquote spec_sqltypes (CHR 0x22) (''it'' @ [CHR 0x22, CHR 0x22]) = None"
    by code_simp
  have 4: "\<not> ForceEOF (NewStringTokenizer ''/* a * / **'')" by code_simp
  have 5: "sees (dispatch_point (NewStringTokenizer ''/* a * / **''))
     (CHR ''/'' # CHR ''*'' # '' a * / **'')" by code_simp
  have 6: "\<not> spec_comment_closed '' a * / **''" by code_simp
  from unterminated_is_LEX_ERROR [of "NewStringTokenizer ?s" "CHR 0x22"
      "''it'' @ [CHR 0x22, CHR 0x22]" spec_sqltypes] 1 2 3
  have a: "\<exists>txt tkn'. Scan spec_sqltypes (NewStringTokenizer ?s) = Some ((LEX_ERROR, Some txt), tkn')"
    by simp
  from unterminated_is_LEX_ERROR [of "NewStringTokenizer ''/* a * / **''" _ "'' a * / **''"
      spec_sqltypes] 4 5 6
  have b: "\<exists>tkn'. Scan spec_sqltypes (NewStringTokenizer ''/* a * / **'') =
      Some ((LEX_ERROR, Some ''/* a * / **''), tkn')"
    by simp
  from 1 2 3 4 5 6 a b show ?thesis by blast
qed

lemma sees_fresh:
  assumes "c \<notin> {CHR '' '', CHR 0x0A, CHR 0x0D, CHR 0x09}"
  shows "\<not> ForceEOF (NewStringTokenizer (c # s)) \<and>
         sees (dispatch_point (NewStringTokenizer (c # s))) (c # s)"
proof -
  let ?t = "next' (NewStringTokenizer (c # s))"
  have l: "lastChar ?t = uint16 c" and i: "InStream ?t = s"
    by (simp_all add: NewStringTokenizer_def next'_def)
  from assms l have "skipBlank ?t = ?t"
    by (intro skipBlank_id) (auto simp: uint16_inject)
  then have "dispatch_point (NewStringTokenizer (c # s)) = ?t"
    by (simp add: dispatch_point_def NewStringTokenizer_def)
  with l i show ?thesis
    by (simp add: sees_def lookahead_Cons NewStringTokenizer_def)
qed

text \<open>
  C7. Where \<^verbatim>\<open>Scan\<close> finds a quote and the string behind it is closed, the token text is
  the text the spec describes (\<open>spec_unquote\<close>: doubled delimiters halved, escapes
  decoded through the table, other escaped bytes passed through), the kind is \<^verbatim>\<open>STRING\<close>
  for \<^verbatim>\<open>'\<close> and \<^verbatim>\<open>"\<close> and \<^verbatim>\<open>ID\<close> for a backtick, and the tokenizer is left behind the
  closing delimiter. Then the examples of the claim: \<^verbatim>\<open>'a\nb'\<close> for a table that decodes
  \<^verbatim>\<open>n\<close> to a newline, between single quotes and between backticks; \<^verbatim>\<open>'it''s'\<close>; and a
  backslash before any byte that the table does not escape.
\<close>

theorem quoted_string_decoding:
  "(\<not> ForceEOF tkn \<and> sees (dispatch_point tkn) (q # body) \<and>
    q \<in> {CHR 0x27, CHR 0x22, CHR 0x60} \<and> spec_unquote sq q body = Some (decoded, rest) \<longrightarrow>
    (\<exists>tkn'. Scan sq tkn = Some ((if q = CHR 0x60 then ID else STRING, Some decoded), tkn') \<and>
            sees tkn' rest)) \<and>
   (SQLDecodeMap sq CHR ''n'' = CHR 0x0A \<and> DONTESCAPE sq \<noteq> CHR 0x0A \<longrightarrow>
    map_option fst (Scan sq (NewStringTokenizer [CHR 0x27, CHR ''a'', CHR 0x5C, CHR ''n'', CHR ''b'', CHR 0x27])) =
      Some (STRING, Some [CHR ''a'', CHR 0x0A, CHR ''b'']) \<and>
    map_option fst (Scan sq (NewStringTokenizer [CHR 0x60, CHR ''a'', CHR 0x5C, CHR ''n'', CHR ''b'', CHR 0x60])) =
      Some (ID, Some [CHR ''a'', CHR 0x0A, CHR ''b''])) \<and>
   map_option fst (Scan sq (NewStringTokenizer [CHR 0x27, CHR ''i'', CHR ''t'', CHR 0x27, CHR 0x27, CHR ''s'', CHR 0x27])) =
     Some (STRING, Some [CHR ''i'', CHR ''t'', CHR 0x27, CHR ''s'']) \<and>
   (SQLDecodeMap sq c = DONTESCAPE sq \<longrightarrow>
    map_option fst (Scan sq (NewStringTokenizer [CHR 0x27, CHR 0x5C, c, CHR 0x27])) =
      Some (STRING, Some [c]) \<and>
    map_option fst (Scan sq (NewStringTokenizer [CHR 0x60, CHR 0x5C, c, CHR 0x60])) =
      Some (ID, Some [c]))"
proof -
  have gen: "\<exists>tkn'. Scan sq t = Some ((if d = CHR 0x60 then ID else STRING, Some out), tkn') \<and>
            sees tkn' r"
    if h: "\<not> ForceEOF t" "sees (dispatch_point t) (d # s)"
      "d \<in> {CHR 0x27, CHR 0x22, CHR 0x60}" "spec_unquote sq d s = Some (out, r)"
    for t d s out r
  proof -
    have "sees (next' (dispatch_point t)) s" using h(2) by (rule sees_next)
    from scanString_loop_unquote_Some [OF this h(4), of "if d = CHR 0x60 then ID else STRING" "[]"]
      Scan_quote [OF h(1) h(2) h(3), of sq]
    show ?thesis by auto
  qed
  have fresh: "map_option fst (Scan sq (NewStringTokenizer (d # s))) =
      Some (if d = CHR 0x60 then ID else STRING, Some out)"
    if "d \<in> {CHR 0x27, CHR 0x22, CHR 0x60}" "spec_unquote sq d s = Some (out, r)" for d s out r
  proof -
    from that(1) have "d \<notin> {CHR '' '', CHR 0x0A, CHR 0x0D, CHR 0x09}" by auto
    from sees_fresh [OF this, of s]
    have f: "\<not> ForceEOF (NewStringTokenizer (d # s))"
      "sees (dispatch_point (NewStringTokenizer (d # s))) (d # s)"
      by simp_all
    from gen [OF f that] obtain tkn' where
      "Scan sq (NewStringTokenizer (d # s)) =
         Some ((if d = CHR 0x60 then ID else STRING, Some out), tkn')"
      by blast
    then show ?thesis by simp
  qed
  have 1: "\<exists>tkn'. Scan sq tkn = Some ((if q = CHR 0x60 then ID else STRING, Some decoded), tkn') \<and>
            sees tkn' rest"
    if "\<not> ForceEOF tkn \<and> sees (dispatch_point tkn) (q # body) \<and>
      q \<in> {CHR 0x27, CHR 0x22, CHR 0x60} \<and> spec_unquote sq q body = Some (decoded, rest)"
    using that gen by blast
  have 2: "map_option fst (Scan sq (NewStringTokenizer [CHR 0x27, CHR ''a'', CHR 0x5C, CHR ''n'', CHR ''b'', CHR 0x27])) =
      Some (STRING, Some [CHR ''a'', CHR 0x0A, CHR ''b'']) \<and>
    map_option fst (Scan sq (NewStringTokenizer [CHR 0x60, CHR ''a'', CHR 0x5C, CHR ''n'', CHR ''b'', CHR 0x60])) =
      Some (ID, Some [CHR ''a'', CHR 0x0A, CHR ''b''])"
    if n: "SQLDecodeMap sq CHR ''n'' = CHR 0x0A \<and> DONTESCAPE sq \<noteq> CHR 0x0A"
  proof -
    from n have u: "unescape sq CHR ''n'' = CHR 0x0A" by (auto simp: unescape_def)
    have "spec_unquote sq (CHR 0x27) [CHR ''a'', CHR 0x5C, CHR ''n'', CHR ''b'', CHR 0x27] =
        Some ([CHR ''a'', CHR 0x0A, CHR ''b''], [])"
      by (simp add: u)
    from fresh [OF _ this] have a: "map_option fst (Scan sq (NewStringTokenizer
        [CHR 0x27, CHR ''a'', CHR 0x5C, CHR ''n'', CHR ''b'', CHR 0x27])) =
      Some (STRING, Some [CHR ''a'', CHR 0x0A, CHR ''b''])" by simp
    have "spec_unquote sq (CHR 0x60) [CHR ''a'', CHR 0x5C, CHR ''n'', CHR ''b'', CHR 0x60] =
        Some ([CHR ''a'', CHR 0x0A, CHR ''b''], [])"
      by (simp add: u)
    from fresh [OF _ this] have b: "map_option fst (Scan sq (NewStringTokenizer
        [CHR 0x60, CHR ''a'', CHR 0x5C, CHR ''n'', CHR ''b'', CHR 0x60])) =
      Some (ID, Some [CHR ''a'', CHR 0x0A, CHR ''b''])" by simp
    from a b show ?thesis by simp
  qed
  have 3: "map_option fst (Scan sq (NewStringTokenizer [CHR 0x27, CHR ''i'', CHR ''t'', CHR 0x27, CHR 0x27, CHR ''s'', CHR 0x27])) =
     Some (STRING, Some [CHR ''i'', CHR ''t'', CHR 0x27, CHR ''s''])"
  proof -
    have "spec_unquote sq (CHR 0x27) [CHR ''i'', CHR ''t'', CHR 0x27, CHR 0x27, CHR ''s'', CHR 0x27] =
        Some ([CHR ''i'', CHR ''t'', CHR 0x27, CHR ''s''], [])"
      by simp
    from fresh [OF _ this] show ?thesis by simp
  qed
  have 4: "map_option fst (Scan sq (NewStringTokenizer [CHR 0x27, CHR 0x5C, c, CHR 0x27])) =
      Some (STRING, Some [c]) \<and>
    map_option fst (Scan sq (NewStringTokenizer [CHR 0x60, CHR 0x5C, c, CHR 0x60])) =
      Some (ID, Some [c])"
    if p: "SQLDecodeMap sq c = DONTESCAPE sq"
  proof -
    from p have u: "unescape sq c = c" by (simp add: unescape_def)
    have "spec_unquote sq (CHR 0x27) [CHR 0x5C, c, CHR 0x27] = Some ([c], [])"
      by (simp add: u)
    from fresh [OF _ this] have a: "map_option fst (Scan sq (NewStringTokenizer
        [CHR 0x27, CHR 0x5C, c, CHR 0x27])) = Some (STRING, Some [c])" by simp
    have "spec_unquote sq (CHR 0x60) [CHR 0x5C, c, CHR 0x60] = Some ([c], [])"
      by (simp add: u)
    from fresh [OF _ this] have b: "map_option fst (Scan sq (NewStringTokenizer
        [CHR 0x60, CHR 0x5C, c, CHR 0x60])) = Some (ID, Some [c])" by simp
    from a b show ?thesis by simp
  qed
  from 1 2 3 4 show ?thesis by blast
qed

theorem quoted_string_decoding_witness:
  "\<not> ForceEOF (NewStringTokenizer ('' '' @ CHR 0x22 # ''a'' @ [CHR 0x5C, CHR ''t'', CHR 0x22] @ '',1'')) \<and>
   sees (dispatch_point (NewStringTokenizer ('' '' @ CHR 0x22 # ''a'' @ [CHR 0x5C, CHR ''t'', CHR 0x22] @ '',1'')))
     (CHR 0x22 # ''a'' @ [CHR 0x5C, CHR ''t'', CHR 0x22] @ '',1'') \<and>
   spec_unquote spec_sqltypes (CHR 0x22) (''a'' @ [CHR 0x5C, CHR ''t'', CHR 0x22] @ '',1'') =
     Some ([CHR ''a'', CHR 0x09], '',1'') \<and>
   (\<exists>tkn'. Scan spec_sqltypes
       (NewStringTokenizer ('' '' @ CHR 0x22 # ''a'' @ [CHR 0x5C, CHR ''t'', CHR 0x22] @ '',1'')) =
       Some ((STRING, Some [CHR ''a'', CHR 0x09]), tkn') \<and> sees tkn' '',1'') \<and>
   SQLDecodeMap spec_sqltypes CHR ''n'' = CHR 0x0A \<and> DONTESCAPE spec_sqltypes \<noteq> CHR 0x0A \<and>
   map_option fst (Scan spec_sqltypes
       (NewStringTokenizer [CHR 0x27, CHR ''a'', CHR 0x5C, CHR ''n'', CHR ''b'', CHR 0x27])) =
     Some (STRING, Some [CHR ''a'', CHR 0x0A, CHR ''b'']) \<and>
   SQLDecodeMap spec_sqltypes CHR ''q'' = DONTESCAPE spec_sqltypes \<and>
   map_option fst (Scan spec_sqltypes (NewStringTokenizer [CHR 0x60, CHR 0x5C, CHR ''q'', CHR 0x60])) =
     Some (ID, Some ''q'')"
proof -
  let ?s = "'' '' @ CHR 0x22 # ''a'' @ [CHR 0x5C, CHR ''t'', CHR 0x22] @ '',1''"
  have 1: "\<not> ForceEOF (NewStringTokenizer ?s)" by code_simp
  have 2: "sees (dispatch_point (NewStringTokenizer ?s))
     (CHR 0x22 # ''a'' @ [CHR 0x5C, CHR ''t'', CHR 0x22] @ '',1'')" by code_simp
  have 3: "spec_unquote spec_sqltypes (CHR 0x22) (''a'' @ [CHR 0x5C, CHR ''t'', CHR 0x22] @ '',1'') =
     Some ([CHR ''a'', CHR 0x09], '',1'')" by code_simp
  have 4: "SQLDecodeMap spec_sqltypes CHR ''n'' = CHR 0x0A \<and> DONTESCAPE spec_sqltypes \<noteq> CHR 0x0A"
    by (simp add: spec_sqltypes_def)
  have 5: "SQLDecodeMap spec_sqltypes CHR ''q'' = DONTESCAPE spec_sqltypes"
    by (simp add: spec_sqltypes_def)
  note inst = quoted_string_decoding [of "NewStringTokenizer ?s" "CHR 0x22"
      "''a'' @ [CHR 0x5C, CHR ''t'', CHR 0x22] @ '',1''" spec_sqltypes "[CHR ''a'', CHR 0x09]" "'',1''"
      "CHR ''q''"]
  from inst 1 2 3 have a: "\<exists>tkn'. Scan spec_sqltypes (NewStringTokenizer ?s) =
       Some ((STRING, Some [CHR ''a'', CHR 0x09]), tkn') \<and> sees tkn' '',1''"
    by simp
  from inst 4 have b: "map_option fst (Scan spec_sqltypes
       (NewStringTokenizer [CHR 0x27, CHR ''a'', CHR 0x5C, CHR ''n'', CHR ''b'', CHR 0x27])) =
     Some (STRING, Some [CHR ''a'', CHR 0x0A, CHR ''b''])"
    by blast
  from inst 5 have c: "map_option fst (Scan spec_sqltypes
       (NewStringTokenizer [CHR 0x60, CHR 0x5C, CHR ''q'', CHR 0x60])) = Some (ID, Some ''q'')"
    by blast
  from 1 2 3 4 5 a b c show ?thesis by blast
qed

section \<open>Comments at the pull interface\<close>

lemma Lex_loop_advanced:
  "Lex_loop sq tok tkn = Some (tok', tkn') \<Longrightarrow> advanced tkn tkn'"
proof (induction sq tok tkn rule: Lex_loop.induct)
  case (1 sq tok tkn)
  note unf = "1.prems" [unfolded Lex_loop.simps [of sq tok tkn]]
  show ?case
  proof (cases "fst tok = COMMENT \<and> \<not> AllowComments tkn")
    case True
    with unf obtain tok1 tkn1 where S: "Scan sq tkn = Some (tok1, tkn1)"
      and L: "Lex_loop sq tok1 tkn1 = Some (tok', tkn')"
      by (auto split: Option.bind_splits)
    from True have c: "fst tok = COMMENT" and a: "\<not> AllowComments tkn" by simp_all
    from "1.IH" [OF c a S refl L] Scan_advanced [OF S] show ?thesis
      by (blast intro: advanced_trans)
  next
    case False
    with unf have "tkn' = tkn" by (auto split: if_splits)
    then show ?thesis by (simp add: advanced_refl)
  qed
qed

lemma Lex_kind:
  assumes "\<not> AllowComments tkn" and "Lex sq lval tkn = Some (typ, lval', tkn')"
  shows "typ \<noteq> COMMENT \<and> \<not> AllowComments tkn'"
proof -
  from assms(2) obtain tok t1 val t2 where S: "Scan sq tkn = Some (tok, t1)"
    and L: "Lex_loop sq tok t1 = Some ((typ, val), t2)" and t: "tkn' = t2\<lparr>errorToken := val\<rparr>"
    by (auto simp: Lex_def Let_def split: Option.bind_splits)
  from Scan_advanced [OF S] assms(1) have a1: "\<not> AllowComments t1"
    by (auto dest: advanced_flags)
  from Lex_loop_kind [OF L a1] have "typ \<noteq> COMMENT" by simp
  moreover from Lex_loop_advanced [OF L] a1 have "\<not> AllowComments t2"
    by (auto dest: advanced_flags)
  ultimately show ?thesis using t by simp
qed

lemma Lexes_kind:
  "\<not> AllowComments tkn \<Longrightarrow> Lexes sq n lval tkn = Some (toks, tkn') \<Longrightarrow>
     COMMENT \<notin> fst ` set toks"
proof (induction n arbitrary: lval tkn toks)
  case 0
  then show ?case by simp
next
  case (Suc n)
  from Suc.prems(2) obtain ty lval1 t1 toks1 where L: "Lex sq lval tkn = Some (ty, lval1, t1)"
    and R: "Lexes sq n lval1 t1 = Some (toks1, tkn')" and toks: "toks = (ty, errorToken t1) # toks1"
    by (auto split: Option.bind_splits)
  from Lex_kind [OF Suc.prems(1) L] have k: "ty \<noteq> COMMENT" and a: "\<not> AllowComments t1"
    by simp_all
  from Suc.IH [OF a R] k toks show ?case by simp
qed

text \<open>
  C9. With \<^verbatim>\<open>AllowComments\<close> false, \<^verbatim>\<open>Lex\<close> returns, and what it returns is never a comment:
  not for one call, and not for any number of calls in a row. On
  \<^verbatim>\<open>SELECT /* x */ 1\<close> it returns \<^verbatim>\<open>SELECT\<close>, then the number \<^verbatim>\<open>1\<close>, then the end of the
  input; with the flag set, the comment comes between the two.
\<close>

theorem Lex_hides_comments:
  "(\<not> AllowComments tkn \<longrightarrow>
     (\<exists>typ lval' tkn'. Lex sq lval tkn = Some (typ, lval', tkn') \<and> typ \<noteq> COMMENT) \<and>
     (\<exists>toks tkn'. Lexes sq n lval tkn = Some (toks, tkn') \<and> COMMENT \<notin> fst ` set toks)) \<and>
   map_option fst (Lexes sq 3 None (NewStringTokenizer ''SELECT /* x */ 1'')) =
     Some [(KW ''SELECT'', Some ''select''), (NUMBER, Some ''1''), (Code 0, None)] \<and>
   map_option fst
     (Lexes sq 4 None ((NewStringTokenizer ''SELECT /* x */ 1'')\<lparr>AllowComments := True\<rparr>)) =
     Some [(KW ''SELECT'', Some ''select''), (COMMENT, Some ''/* x */''), (NUMBER, Some ''1''),
           (Code 0, None)]"
proof -
  have Lexes_returns: "returns (Lexes sq n lval tkn)" for n lval tkn
    by (induction n arbitrary: lval tkn)
       (auto intro!: returns_bind returns_Some Lex_returns)
  have 1: "(\<exists>typ lval' tkn'. Lex sq lval tkn = Some (typ, lval', tkn') \<and> typ \<noteq> COMMENT) \<and>
     (\<exists>toks tkn'. Lexes sq n lval tkn = Some (toks, tkn') \<and> COMMENT \<notin> fst ` set toks)"
    if a: "\<not> AllowComments tkn"
  proof -
    from Lex_returns [of sq lval tkn] obtain ty lval' tkn'
      where L: "Lex sq lval tkn = Some (ty, lval', tkn')"
      by (auto simp: returns_def)
    from Lexes_returns [of n lval tkn] obtain toks tkn''
      where R: "Lexes sq n lval tkn = Some (toks, tkn'')"
      by (auto simp: returns_def)
    from Lex_kind [OF a L] Lexes_kind [OF a R] L R show ?thesis by blast
  qed
  have 2: "map_option fst (Lexes sq 3 None (NewStringTokenizer ''SELECT /* x */ 1'')) =
     Some [(KW ''SELECT'', Some ''select''), (NUMBER, Some ''1''), (Code 0, None)]"
    by code_simp
  have 3: "map_option fst
     (Lexes sq 4 None ((NewStringTokenizer ''SELECT /* x */ 1'')\<lparr>AllowComments := True\<rparr>)) =
     Some [(KW ''SELECT'', Some ''select''), (COMMENT, Some ''/* x */''), (NUMBER, Some ''1''),
           (Code 0, None)]"
    by code_simp
  from 1 2 3 show ?thesis by blast
qed

theorem Lex_hides_comments_witness:
  "\<not> AllowComments (NewStringTokenizer (''-- a'' @ CHR 0x0A # ''/* b */ // c'')) \<and>
   (\<exists>typ lval' tkn'. Lex spec_sqltypes None (NewStringTokenizer (''-- a'' @ CHR 0x0A # ''/* b */ // c'')) = Some (typ, lval', tkn') \<and> typ \<noteq> COMMENT) \<and>
   map_option fst (Lexes spec_sqltypes 1 None (NewStringTokenizer (''-- a'' @ CHR 0x0A # ''/* b */ // c''))) = Some [(Code 0, None)]"
proof -
  let ?t = "NewStringTokenizer (''-- a'' @ CHR 0x0A # ''/* b */ // c'')"
  have 1: "\<not> AllowComments ?t" by code_simp
  have 2: "map_option fst (Lexes spec_sqltypes 1 None ?t) = Some [(Code 0, None)]" by code_simp
  from Lex_hides_comments [of ?t spec_sqltypes None 1] 1 2 show ?thesis by blast
qed

section \<open>Numbering the anonymous placeholders\<close>









lemma fmt_d_examples:
  "fmt_d 0 = ''0''" "fmt_d 7 = ''7''" "fmt_d 10 = ''10''" "fmt_d 1234 = ''1234''" "fmt_d (- 5) = ''-5''"
  by code_simp+

section \<open>Characters outside the language\<close>

text \<open>
  Where \<^verbatim>\<open>Scan\<close> dispatches on a byte that is no letter, no digit, and none of the
  characters of its switch, it returns a lexical error that carries the byte.
\<close>

lemma Scan_unrecognised:
  assumes "\<not> ForceEOF tkn" and "lastChar (dispatch_point tkn) = uint16 c"
    and "\<not> isLetter (uint16 c)" and "\<not> isDigit (uint16 c)"
    and "c \<notin> set '':=,;()+*%&|^~?./-<>!'' \<union> {CHR 0x27, CHR 0x22, CHR 0x60}"
  shows "Scan sq tkn = Some ((LEX_ERROR, Some [c]), next' (dispatch_point tkn))"
  using assms
  by (simp add: Scan_def dispatch_point_def [symmetric] Let_def Scan_default_def
                uint16_inject EOF_simps byte_uint16)

text \<open>
  C3 fails for the byte \<^verbatim>\<open>0x00\<close>. \<^verbatim>\<open>Scan\<close> opens with
  \<^verbatim>\<open>if tkn.lastChar == 0 { tkn.next() }\<close>, meant for the tokenizer that has not read anything
  yet; a NUL byte left as the lookahead by the token before it is taken for that state and
  skipped. On the input \<^verbatim>\<open>a\<close>, NUL, \<^verbatim>\<open>b\<close> the tokens are the identifiers \<^verbatim>\<open>a\<close> and \<^verbatim>\<open>b\<close> and
  the end of the input: no lexical error, and the byte is gone.
\<close>

theorem NUL_byte_dropped:
  "map_option fst (Scans spec_sqltypes 3 (NewStringTokenizer [CHR ''a'', CHR 0x00, CHR ''b''])) =
     Some [(ID, Some ''a''), (ID, Some ''b''), (Code 0, None)]"
  by code_simp

text \<open>The same byte at the start of the input, or behind a blank, is reported.\<close>

lemma NUL_byte_reported:
  "map_option fst (Scans spec_sqltypes 2 (NewStringTokenizer [CHR 0x00, CHR ''b''])) =
     Some [(LEX_ERROR, Some [CHR 0x00]), (ID, Some ''b'')]"
  "map_option fst (Scans spec_sqltypes 3 (NewStringTokenizer [CHR ''a'', CHR '' '', CHR 0x00, CHR ''b''])) =
     Some [(ID, Some ''a''), (LEX_ERROR, Some [CHR 0x00]), (ID, Some ''b'')]"
  by code_simp+

end
